theory Spec2Isabelle
  imports Main
begin

section \<open>The deadline watchdog of \<open>_xtimeout.cpp\<close>\<close>

text \<open>
  A shallow embedding of the scheduling core of \<open>src/xtimeout/_xtimeout.cpp\<close>
  (the build with \<open>WITH_THREAD\<close>). Every member function becomes a function on an
  explicit program state; one call of a member function is one atomic step, which
  is what the two mutexes of \<open>CContextHelper\<close> give for \<open>Start\<close>, \<open>Stop\<close> and \<open>Merge\<close>.
  The watchdog thread goes through \<open>CheckThread\<close> one control point at a time: a
  pass of the loop body is one step, and each test of \<open>m_IsQuit\<close> or \<open>m_Running\<close> and
  the call of \<open>m_RunCond.wait\<close> is a step of its own, so that the calls of the other
  threads fall between any two of them.
  Objects held through \<open>std::shared_ptr\<close> live in a store indexed by their address,
  so that the registry, the staging vectors, the pending-call queue, the trace
  capsules and the Python handles can share one \<open>CLocalInjector\<close>.

  Times are integers: \<open>std::chrono::milliseconds\<close> for a duration,
  nanoseconds of \<open>std::chrono::steady_clock\<close> for a time point. The source computes
  with 64-bit signed counts; no operation of the model leaves that range for
  clock readings and durations that a process can observe, so the counts are
  modelled as \<open>int\<close>.
\<close>

subsection \<open>Data\<close>

type_synonym addr = nat
type_synonym pyobj = nat
type_synonym thread_id = nat
type_synonym handle = nat

text \<open>\<open>CThreadState\<close>: the thread state captured by the constructor and the flag
  \<open>m_IsMainThread\<close> computed there.\<close>

record CThreadState =
  m_State :: thread_id
  m_IsMainThread :: bool

text \<open>\<open>CLocalInjector\<close>, one timeout entry. \<open>m_Callback = None\<close> is \<open>nullptr\<close>.\<close>

record CLocalInjector =
  m_IsValid :: bool
  m_Callback :: "pyobj option"
  m_Duration :: int
  m_StartTime :: int
  m_ThState :: CThreadState

text \<open>The argument a callback receives. \<open>TimePointToPyFloat\<close> builds a Python float
  from a time point; the float is represented by the nanosecond count it was
  built from.\<close>

datatype pyvalue = PyFloat int

text \<open>A variadic C argument as the caller passes it, and the two format strings
  the source gives to \<open>PyObject_CallFunction\<close>: \<open>"O"\<close> and \<open>"(d)"\<close>.\<close>

datatype c_vararg = VaPyObject pyvalue | VaDouble int

datatype call_format = FormatO | FormatParenD

text \<open>One call of \<open>PyObject_CallFunction\<close> on a callback: the entry it was made for,
  the callable and the argument built from the format. The argument is \<open>None\<close>
  when the variadic argument does not have the C type the format reads, which
  is undefined in C.\<close>

record call_event =
  ev_injector :: addr
  ev_callable :: "pyobj option"
  ev_argument :: "pyvalue option"

text \<open>The trace slot of a Python thread state (\<open>c_tracefunc\<close> with \<open>c_traceobj\<close>):
  empty, a trace function of some other instrumentation, or \<open>OnTrace\<close> with the
  capsule of a \<open>CArgWrapper\<close>, which holds the entry and the slot it replaced.\<close>

datatype trace_slot =
  NoTrace
| ForeignTrace nat
| OnTraceCapsule addr trace_slot

text \<open>Where the watchdog thread \<open>m_CheckTh\<close> stands in \<open>CheckThread\<close>: not created yet;
  at the test of \<open>while (!m_IsQuit)\<close>; at the head of the body of
  \<open>do ... while (m_Running)\<close>; at the test of \<open>while (m_Running)\<close>; at
  \<open>if (!m_IsQuit)\<close> behind the inner loop; inside that \<open>if\<close>, about to lock \<open>m_Mtx\<close>
  and to call \<open>m_RunCond.wait\<close>; blocked in the wait; returned from \<open>CheckThread\<close>.\<close>

datatype thread_ctl =
  NotStarted
| AtWhileNotQuit
| InLoop
| AtWhileRunning
| AtIfNotQuit
| AtWait
| Waiting
| Finished

datatype error = NullDereference

text \<open>The program state: the store of entries with the allocator's next address,
  the Python handles (\<open>PyInjector::injector\<close>, \<open>None\<close> is \<open>nullptr\<close>), the fields of
  the \<open>CContextHelper\<close> singleton, and the part of the interpreter the module
  talks to: the queue of \<open>Py_AddPendingCall\<close>, the trace slot of every thread and
  the log of callback invocations.

  \<open>m_CallMap\<close> is an \<open>unordered_map\<close> from an entry's address to a shared pointer
  to the same entry; it is the list of its keys in iteration order.\<close>

record state =
  heap :: "addr \<Rightarrow> CLocalInjector"
  next_addr :: addr
  py_injector :: "handle \<Rightarrow> addr option"
  m_CheckTh :: thread_ctl
  m_IsQuit :: bool
  m_Running :: bool
  m_CallMap :: "addr list"
  m_NewVect :: "addr list"
  m_DelVect :: "addr list"
  pending_calls :: "addr list"
  c_trace :: "thread_id \<Rightarrow> trace_slot"
  invocations :: "call_event list"

subsection \<open>Constants\<close>

definition INTERVAL_RESOLUTION :: int where
  "INTERVAL_RESOLUTION = 5"

definition LLONG_MAX :: int where
  "LLONG_MAX = 9223372036854775807"

definition g_MainThreadId :: thread_id where
  "g_MainThreadId = 0"

text \<open>Conversion of a millisecond count to the nanosecond count the comparison
  with a clock difference is made in.\<close>

definition ms_to_ns :: "int \<Rightarrow> int" where
  "ms_to_ns ms = ms * 1000000"

subsection \<open>\<open>CLocalInjector\<close>\<close>

definition CThreadState_ctor :: "thread_id \<Rightarrow> CThreadState" where
  "CThreadState_ctor cur = \<lparr> m_State = cur, m_IsMainThread = (g_MainThreadId = cur) \<rparr>"

text \<open>The constructor: valid, no callback, the creating thread's state. Duration
  and start time are not initialised by the source; the model gives them 0.\<close>

definition CLocalInjector_ctor :: "thread_id \<Rightarrow> CLocalInjector" where
  "CLocalInjector_ctor cur =
     \<lparr> m_IsValid = True, m_Callback = None, m_Duration = 0, m_StartTime = 0,
       m_ThState = CThreadState_ctor cur \<rparr>"

definition IsValid :: "state \<Rightarrow> addr \<Rightarrow> bool" where
  "IsValid s a = m_IsValid (heap s a)"

definition GetCallback :: "state \<Rightarrow> addr \<Rightarrow> pyobj option" where
  "GetCallback s a = m_Callback (heap s a)"

definition GetDuration :: "state \<Rightarrow> addr \<Rightarrow> int" where
  "GetDuration s a = m_Duration (heap s a)"

definition GetStartTime :: "state \<Rightarrow> addr \<Rightarrow> int" where
  "GetStartTime s a = m_StartTime (heap s a)"

definition IsMainThreadInjector :: "state \<Rightarrow> addr \<Rightarrow> bool" where
  "IsMainThreadInjector s a = m_IsMainThread (m_ThState (heap s a))"

text \<open>\<open>Release\<close>: clears the flag and the callback (\<open>Py_CLEAR\<close>).\<close>

definition Release :: "addr \<Rightarrow> state \<Rightarrow> state" where
  "Release a s =
     s\<lparr> heap := (heap s)(a := (heap s a)\<lparr> m_IsValid := False, m_Callback := None \<rparr>) \<rparr>"

text \<open>\<open>SetCallback\<close>: \<open>Py_XSETREF\<close> accepts a null pointer, the \<open>Py_INCREF(func)\<close>
  after it reads through \<open>func\<close>.\<close>

definition SetCallback :: "addr \<Rightarrow> pyobj option \<Rightarrow> state \<Rightarrow> error + state" where
  "SetCallback a func s =
     (case func of
        None \<Rightarrow> Inl NullDereference
      | Some f \<Rightarrow> Inr (s\<lparr> heap := (heap s)(a := (heap s a)\<lparr> m_Callback := Some f \<rparr>) \<rparr>))"

definition SetDuration :: "addr \<Rightarrow> int \<Rightarrow> state \<Rightarrow> state" where
  "SetDuration a ms s = s\<lparr> heap := (heap s)(a := (heap s a)\<lparr> m_Duration := ms \<rparr>) \<rparr>"

definition RecordStartTime :: "addr \<Rightarrow> int \<Rightarrow> state \<Rightarrow> state" where
  "RecordStartTime a now s = s\<lparr> heap := (heap s)(a := (heap s a)\<lparr> m_StartTime := now \<rparr>) \<rparr>"

text \<open>\<open>std::make_shared<CLocalInjector>()\<close> on thread \<open>cur\<close>: the object is built at
  the allocator's next address.\<close>

definition make_shared :: "thread_id \<Rightarrow> state \<Rightarrow> addr \<times> state" where
  "make_shared cur s =
     (next_addr s,
      s\<lparr> heap := (heap s)(next_addr s := CLocalInjector_ctor cur),
         next_addr := Suc (next_addr s) \<rparr>)"

subsection \<open>The registry of \<open>CContextHelper\<close>\<close>

text \<open>\<open>m_CallMap[p] = p\<close>, \<open>m_CallMap.erase(p)\<close> and \<open>m_CallMap.find(p) != end()\<close>.\<close>

definition CallMap_insert :: "addr \<Rightarrow> addr list \<Rightarrow> addr list" where
  "CallMap_insert a m = (if a \<in> set m then m else m @ [a])"

definition CallMap_erase :: "addr \<Rightarrow> addr list \<Rightarrow> addr list" where
  "CallMap_erase a m = removeAll a m"

definition CallMap_contains :: "addr list \<Rightarrow> addr \<Rightarrow> bool" where
  "CallMap_contains m a = (a \<in> set m)"

definition AddTimeoutCallback :: "addr \<Rightarrow> state \<Rightarrow> state" where
  "AddTimeoutCallback a s =
     (if m_Running s then s\<lparr> m_NewVect := m_NewVect s @ [a] \<rparr>
      else s\<lparr> m_CallMap := CallMap_insert a (m_CallMap s) \<rparr>)"

text \<open>\<open>m_RunCond.notify_one()\<close> and \<open>notify_all()\<close>: a thread blocked in \<open>wait\<close> returns
  from it and goes on at the test of \<open>while (!m_IsQuit)\<close>. The wait has no
  predicate, and \<open>Start\<close> notifies under \<open>m_CallMapMtx\<close> while the wait uses \<open>m_Mtx\<close>: a
  thread that is not blocked in the wait at that moment does not see the
  notification. The wait is taken to return only when it is notified; a return
  without a notification, which the language permits, is not part of the
  model.\<close>

definition notify :: "state \<Rightarrow> state" where
  "notify s =
     (if m_CheckTh s = Waiting then s\<lparr> m_CheckTh := AtWhileNotQuit \<rparr> else s)"

text \<open>\<open>CContextHelper::Start\<close>. A thread object that was never given a thread is
  the only one that is not joinable; the new thread begins \<open>CheckThread\<close> at the test
  of \<open>while (!m_IsQuit)\<close>.\<close>

definition Start :: "addr \<Rightarrow> state \<Rightarrow> state" where
  "Start a s =
     (let s1 = AddTimeoutCallback a s;
          s2 = (if \<not> m_Running s1 then s1\<lparr> m_Running := True \<rparr> else s1);
          s3 = (if m_CheckTh s2 = NotStarted
                then s2\<lparr> m_IsQuit := False, m_CheckTh := AtWhileNotQuit \<rparr> else s2)
      in notify s3)"

text \<open>\<open>CContextHelper::Stop\<close>.\<close>

definition Stop :: "addr \<Rightarrow> state \<Rightarrow> state" where
  "Stop a s =
     (let s1 = Release a s in
      if \<not> CallMap_contains (m_CallMap s1) a then s1
      else if m_Running s1 then s1\<lparr> m_DelVect := m_DelVect s1 @ [a] \<rparr>
      else s1\<lparr> m_CallMap := CallMap_erase a (m_CallMap s1) \<rparr>)"

text \<open>\<open>CContextHelper::Merge\<close>: the two loops of the source, each followed by the
  \<open>clear()\<close> of its vector.\<close>

fun Merge_erase_loop :: "addr list \<Rightarrow> addr list \<Rightarrow> addr list" where
  "Merge_erase_loop [] m = m"
| "Merge_erase_loop (item # items) m = Merge_erase_loop items (CallMap_erase item m)"

fun Merge_add_loop :: "(addr \<Rightarrow> CLocalInjector) \<Rightarrow> addr list \<Rightarrow> addr list \<Rightarrow> addr list" where
  "Merge_add_loop h [] m = m"
| "Merge_add_loop h (item # items) m =
     (if \<not> m_IsValid (h item) then Merge_add_loop h items m
      else Merge_add_loop h items (CallMap_insert item m))"

definition Merge :: "state \<Rightarrow> state" where
  "Merge s =
     (let s1 = s\<lparr> m_CallMap := Merge_erase_loop (m_DelVect s) (m_CallMap s) \<rparr>;
          s2 = s1\<lparr> m_DelVect := [] \<rparr>;
          s3 = s2\<lparr> m_CallMap := Merge_add_loop (heap s2) (m_NewVect s2) (m_CallMap s2) \<rparr>
      in s3\<lparr> m_NewVect := [] \<rparr>)"

text \<open>The merge as the specification words it: the pending removals are applied
  to the active map, then the pending additions whose entry is still valid,
  then both staging lists are cleared.\<close>

definition spec_apply_removals :: "addr list \<Rightarrow> addr list \<Rightarrow> addr list" where
  "spec_apply_removals dels m = filter (\<lambda>a. a \<notin> set dels) m"

definition spec_apply_adds :: "(addr \<Rightarrow> CLocalInjector) \<Rightarrow> addr list \<Rightarrow> addr list \<Rightarrow> addr list" where
  "spec_apply_adds h news m =
     foldl (\<lambda>active a. if a \<in> set active then active else active @ [a]) m
       (filter (\<lambda>a. m_IsValid (h a)) news)"

definition spec_Merge :: "state \<Rightarrow> state" where
  "spec_Merge s =
     s\<lparr> m_CallMap := spec_apply_adds (heap s) (m_NewVect s)
                        (spec_apply_removals (m_DelVect s) (m_CallMap s)),
        m_NewVect := [], m_DelVect := [] \<rparr>"

subsection \<open>The interpreter as the module uses it\<close>

text \<open>\<open>TimePointToPyFloat\<close>.\<close>

definition TimePointToPyFloat :: "int \<Rightarrow> pyvalue" where
  "TimePointToPyFloat t = PyFloat t"

text \<open>The argument \<open>PyObject_CallFunction\<close> builds: \<open>"O"\<close> reads a \<open>PyObject*\<close>, \<open>"(d)"\<close>
  reads a C \<open>double\<close>; any other pairing reads a variadic argument at the wrong
  type.\<close>

fun build_argument :: "call_format \<Rightarrow> c_vararg \<Rightarrow> pyvalue option" where
  "build_argument FormatO (VaPyObject v) = Some v"
| "build_argument FormatParenD (VaDouble d) = Some (PyFloat d)"
| "build_argument FormatO (VaDouble d) = None"
| "build_argument FormatParenD (VaPyObject v) = None"

text \<open>\<open>PyObject_CallFunction(callback, format, arg)\<close> made on behalf of an entry. A
  null callable is refused without a call. Otherwise the call is logged; whether
  the Python code of the callback returns or raises is the input \<open>returns\<close>. The
  result is \<open>True\<close> for a non-null \<open>res\<close>.\<close>

definition PyObject_CallFunction ::
  "bool \<Rightarrow> addr \<Rightarrow> pyobj option \<Rightarrow> call_format \<Rightarrow> c_vararg \<Rightarrow> state \<Rightarrow> bool \<times> state" where
  "PyObject_CallFunction returns injector callback fmt arg s =
     (case callback of
        None \<Rightarrow> (False, s)
      | Some f \<Rightarrow>
          (returns,
           s\<lparr> invocations := invocations s @
                [\<lparr> ev_injector = injector, ev_callable = Some f,
                   ev_argument = build_argument fmt arg \<rparr>] \<rparr>))"

text \<open>\<open>Py_AddPendingCall(OnFastTrace, wrapper)\<close>: the interpreter either queues
  the request and returns 0, or refuses it and returns -1; which one is the
  input \<open>accepted\<close>.\<close>

definition Py_AddPendingCall :: "bool \<Rightarrow> addr \<Rightarrow> state \<Rightarrow> int \<times> state" where
  "Py_AddPendingCall accepted wrapper s =
     (if accepted then (0, s\<lparr> pending_calls := pending_calls s @ [wrapper] \<rparr>)
      else (- 1, s))"

text \<open>\<open>PyEval_SetTrace\<close> on the thread state \<open>st\<close>.\<close>

definition PyEval_SetTrace :: "thread_id \<Rightarrow> trace_slot \<Rightarrow> state \<Rightarrow> state" where
  "PyEval_SetTrace st slot s = s\<lparr> c_trace := (c_trace s)(st := slot) \<rparr>"

subsection \<open>Dispatch: \<open>CLocalInjector::FastCall\<close>, \<open>Call\<close>, \<open>CAttacher::Attach\<close>\<close>

text \<open>\<open>FastCall\<close>. The branch for \<open>res == -1\<close> is empty in the source.\<close>

definition FastCall :: "bool \<Rightarrow> addr \<Rightarrow> state \<Rightarrow> state" where
  "FastCall accepted injector s =
     (if \<not> IsValid s injector then s
      else (let (res, s1) = Py_AddPendingCall accepted injector s
            in if res = - 1 then s1 else s1))"

text \<open>\<open>Call\<close>: between \<open>SwapState\<close> and \<open>RestoreState\<close> the current thread state is
  the entry's, so the slot read into the wrapper and the slot written by
  \<open>PyEval_SetTrace\<close> are the slot of the entry's thread.\<close>

definition Call :: "addr \<Rightarrow> state \<Rightarrow> state" where
  "Call injector s =
     (if \<not> IsValid s injector then s
      else (let st = m_State (m_ThState (heap s injector));
                capsule = OnTraceCapsule injector (c_trace s st)
            in PyEval_SetTrace st capsule s))"

definition Attach :: "bool \<Rightarrow> addr \<Rightarrow> state \<Rightarrow> state" where
  "Attach accepted injector s =
     (if IsMainThreadInjector s injector then FastCall accepted injector s
      else Call injector s)"

subsection \<open>Delivery: \<open>OnFastTrace\<close> and \<open>OnTrace\<close>\<close>

definition OnFastTrace :: "bool \<Rightarrow> addr \<Rightarrow> state \<Rightarrow> int \<times> state" where
  "OnFastTrace returns injector s =
     (if \<not> IsValid s injector then (0, s)
      else (let callback = GetCallback s injector;
                pyStartTime = TimePointToPyFloat (m_StartTime (heap s injector));
                (res, s1) = PyObject_CallFunction returns injector callback
                              FormatO (VaPyObject pyStartTime) s
            in if \<not> res then (- 1, s1) else (0, s1)))"

text \<open>\<open>OnTrace\<close>, running on thread \<open>cur\<close> with the capsule that holds \<open>injector\<close> and
  the saved slot \<open>saved\<close>.\<close>

definition OnTrace :: "bool \<Rightarrow> thread_id \<Rightarrow> addr \<Rightarrow> trace_slot \<Rightarrow> state \<Rightarrow> int \<times> state" where
  "OnTrace returns cur injector saved s =
     (let s1 = PyEval_SetTrace cur saved s;
          pyStartTime = TimePointToPyFloat (m_StartTime (heap s1 injector));
          callback = GetCallback s1 injector
      in if \<not> IsValid s1 injector then (0, s1)
         else (let (res, s2) = PyObject_CallFunction returns injector callback
                                 FormatParenD (VaPyObject pyStartTime) s1
               in if \<not> res then (- 1, s2) else (0, s2)))"

text \<open>The interpreter's side: the main thread runs the oldest pending call; a
  thread that reaches a trace event calls the trace function of its slot, which
  is \<open>OnTrace\<close> exactly when the slot holds one of the module's capsules.\<close>

definition run_pending_call :: "bool \<Rightarrow> state \<Rightarrow> int \<times> state" where
  "run_pending_call returns s =
     (case pending_calls s of
        [] \<Rightarrow> (0, s)
      | wrapper # rest \<Rightarrow> OnFastTrace returns wrapper (s\<lparr> pending_calls := rest \<rparr>))"

definition trace_event :: "bool \<Rightarrow> thread_id \<Rightarrow> state \<Rightarrow> int \<times> state" where
  "trace_event returns cur s =
     (case c_trace s cur of
        OnTraceCapsule injector saved \<Rightarrow> OnTrace returns cur injector saved s
      | NoTrace \<Rightarrow> (0, s)
      | ForeignTrace f \<Rightarrow> (0, s))"

subsection \<open>The watchdog thread: \<open>CContextHelper::CheckThread\<close>\<close>

text \<open>What one pass of the inner loop reads from outside: the clock at the start
  of the pass, the clock in the iteration that visits an entry (every entry is
  visited at most once in a pass), the clock after \<open>Merge\<close>, and whether
  \<open>Py_AddPendingCall\<close> accepts the request made for an entry.\<close>

record cycle_env =
  clock_start :: int
  clock_entry :: "addr \<Rightarrow> int"
  clock_end :: int
  pending_accepts :: "addr \<Rightarrow> bool"

text \<open>The \<open>for\<close> loop over \<open>m_CallMap\<close>. The list is what is left to iterate;
  erasing the current element leaves the elements after it in place.\<close>

fun scan_loop :: "cycle_env \<Rightarrow> addr list \<Rightarrow> int \<Rightarrow> state \<Rightarrow> int \<times> state" where
  "scan_loop env [] minSpan s = (minSpan, s)"
| "scan_loop env (injector # rest) minSpan s =
     (let span = clock_entry env injector - GetStartTime s injector;
          duration = ms_to_ns (GetDuration s injector)
      in if span > duration
         then (let s1 = Attach (pending_accepts env injector) injector s;
                   s2 = s1\<lparr> m_CallMap := CallMap_erase injector (m_CallMap s1) \<rparr>
               in scan_loop env rest minSpan s2)
         else (let minSpan1 = min minSpan (duration - span)
               in if m_IsQuit s then (minSpan1, s)
                  else scan_loop env rest minSpan1 s))"

text \<open>The entries one pass hands to \<open>Attach\<close>, in order: the same recursion, keeping
  only the decisions.\<close>

fun scan_attached :: "cycle_env \<Rightarrow> addr list \<Rightarrow> state \<Rightarrow> addr list" where
  "scan_attached env [] s = []"
| "scan_attached env (injector # rest) s =
     (let span = clock_entry env injector - GetStartTime s injector;
          duration = ms_to_ns (GetDuration s injector)
      in if span > duration then injector # scan_attached env rest s
         else if m_IsQuit s then [] else scan_attached env rest s)"

text \<open>The entries the \<open>for\<close> loop visits, in order: the same recursion again. The
  loop goes through the whole map unless \<open>m_IsQuit\<close> is set, in which case it
  leaves at the first entry it finds unexpired, after that entry has entered
  \<open>minSpan\<close>.\<close>

fun scan_visited :: "cycle_env \<Rightarrow> addr list \<Rightarrow> state \<Rightarrow> addr list" where
  "scan_visited env [] s = []"
| "scan_visited env (injector # rest) s =
     (let span = clock_entry env injector - GetStartTime s injector;
          duration = ms_to_ns (GetDuration s injector)
      in if span > duration then injector # scan_visited env rest s
         else if m_IsQuit s then [injector] else injector # scan_visited env rest s)"

text \<open>The body of \<open>do ... while (m_Running)\<close>. The first component is the argument
  of \<open>AccurateSleep\<close> in milliseconds, 0 when it is not called.\<close>

definition CheckThread_body :: "cycle_env \<Rightarrow> state \<Rightarrow> int \<times> state" where
  "CheckThread_body env s =
     (let startTime = clock_start env;
          (minSpan, s1) = scan_loop env (m_CallMap s) LLONG_MAX s;
          s2 = Merge s1;
          s3 = (if m_CallMap s2 = [] then s2\<lparr> m_Running := False \<rparr> else s2);
          endTime = clock_end env
      in if minSpan - (endTime - startTime) > ms_to_ns INTERVAL_RESOLUTION
         then (1, s3) else (0, s3))"

text \<open>Where the thread stands after its next step. \<open>while (!m_IsQuit)\<close> enters the
  inner loop or leaves \<open>CheckThread\<close>; the body is followed by the test of
  \<open>while (m_Running)\<close>, which goes back to the body or leaves the inner loop;
  \<open>if (!m_IsQuit)\<close> goes on to the wait or back to the outer test; the call of
  \<open>wait\<close> blocks the thread. A thread that does not exist, is blocked or has
  returned stays where it is.\<close>

definition CheckThread_control :: "state \<Rightarrow> thread_ctl" where
  "CheckThread_control s =
     (case m_CheckTh s of
        NotStarted \<Rightarrow> NotStarted
      | AtWhileNotQuit \<Rightarrow> (if \<not> m_IsQuit s then InLoop else Finished)
      | InLoop \<Rightarrow> AtWhileRunning
      | AtWhileRunning \<Rightarrow> (if m_Running s then InLoop else AtIfNotQuit)
      | AtIfNotQuit \<Rightarrow> (if \<not> m_IsQuit s then AtWait else AtWhileNotQuit)
      | AtWait \<Rightarrow> Waiting
      | Waiting \<Rightarrow> Waiting
      | Finished \<Rightarrow> Finished)"

text \<open>One step of the thread: at the head of the loop body, one pass of the body;
  anywhere else, the control transfer alone. The first component is the time
  slept in the step.\<close>

definition CheckThread_step :: "cycle_env \<Rightarrow> state \<Rightarrow> int \<times> state" where
  "CheckThread_step env s =
     (if m_CheckTh s = InLoop
      then (let (slept, s1) = CheckThread_body env s
            in (slept, s1\<lparr> m_CheckTh := CheckThread_control s \<rparr>))
      else (0, s\<lparr> m_CheckTh := CheckThread_control s \<rparr>))"

text \<open>The destructor of \<open>CContextHelper\<close> up to the \<open>join\<close>: it sets \<open>m_IsQuit\<close> and
  notifies.\<close>

definition Shutdown :: "state \<Rightarrow> state" where
  "Shutdown s = notify (s\<lparr> m_IsQuit := True \<rparr>)"

subsection \<open>The Python type \<open>Injector\<close>\<close>

text \<open>\<open>InitPyInjector\<close> on thread \<open>cur\<close>; \<open>"IO"\<close> gives a non-null callback.\<close>

definition InitPyInjector :: "thread_id \<Rightarrow> handle \<Rightarrow> int \<Rightarrow> pyobj \<Rightarrow> state \<Rightarrow> error + state" where
  "InitPyInjector cur self time callback s =
     (let (injector, s1) = make_shared cur s;
          s2 = s1\<lparr> py_injector := (py_injector s1)(self := Some injector) \<rparr>
      in case SetCallback injector (Some callback) s2 of
           Inl e \<Rightarrow> Inl e
         | Inr s3 \<Rightarrow> Inr (SetDuration injector time s3))"

definition InjectorStart :: "handle \<Rightarrow> int \<Rightarrow> state \<Rightarrow> error + state" where
  "InjectorStart self now s =
     (case py_injector s self of
        None \<Rightarrow> Inl NullDereference
      | Some injector \<Rightarrow> Inr (Start injector (RecordStartTime injector now s)))"

definition InjectorStop :: "handle \<Rightarrow> state \<Rightarrow> error + state" where
  "InjectorStop self s =
     (case py_injector s self of
        None \<Rightarrow> Inl NullDereference
      | Some injector \<Rightarrow> Inr (Stop injector s))"

text \<open>\<open>InjectorReset\<close> on thread \<open>cur\<close>: the callback and the duration are read, the
  old entry is released, and the handle is given a new entry, which is started.\<close>

definition InjectorReset :: "thread_id \<Rightarrow> handle \<Rightarrow> int \<Rightarrow> state \<Rightarrow> error + state" where
  "InjectorReset cur self now s =
     (case py_injector s self of
        None \<Rightarrow> Inl NullDereference
      | Some old \<Rightarrow>
          (let callback = GetCallback s old;
               time = GetDuration s old;
               s1 = Release old s;
               (injector, s2) = make_shared cur s1;
               s3 = s2\<lparr> py_injector := (py_injector s2)(self := Some injector) \<rparr>
           in case SetCallback injector callback s3 of
                Inl e \<Rightarrow> Inl e
              | Inr s4 \<Rightarrow>
                  Inr (Start injector
                        (RecordStartTime injector now (SetDuration injector time s4)))))"

subsection \<open>Runs\<close>

text \<open>The events of a run: the calls of the Python methods, a step of the
  watchdog thread, the interpreter running a pending call or reaching a trace
  event on a thread, and the shutdown of the singleton.\<close>

datatype step =
  PyInit thread_id handle int pyobj
| PyStart handle int
| PyStop handle
| PyReset thread_id handle int
| Watchdog cycle_env
| PendingCall bool
| TraceEvent bool thread_id
| Quit

fun exec :: "step \<Rightarrow> state \<Rightarrow> error + state" where
  "exec (PyInit cur self time callback) s = InitPyInjector cur self time callback s"
| "exec (PyStart self now) s = InjectorStart self now s"
| "exec (PyStop self) s = InjectorStop self s"
| "exec (PyReset cur self now) s = InjectorReset cur self now s"
| "exec (Watchdog env) s = Inr (snd (CheckThread_step env s))"
| "exec (PendingCall returns) s = Inr (snd (run_pending_call returns s))"
| "exec (TraceEvent returns cur) s = Inr (snd (trace_event returns cur s))"
| "exec Quit s = Inr (Shutdown s)"

fun run :: "step list \<Rightarrow> state \<Rightarrow> error + state" where
  "run [] s = Inr s"
| "run (st # steps) s = (case exec st s of Inl e \<Rightarrow> Inl e | Inr s1 \<Rightarrow> run steps s1)"

text \<open>The state when the module has been loaded: no entry, no handle, no thread.\<close>

definition init_state :: state where
  "init_state =
     \<lparr> heap = (\<lambda>a. CLocalInjector_ctor g_MainThreadId), next_addr = 0,
       py_injector = (\<lambda>h. None), m_CheckTh = NotStarted, m_IsQuit = False,
       m_Running = False, m_CallMap = [], m_NewVect = [], m_DelVect = [],
       pending_calls = [], c_trace = (\<lambda>t. NoTrace), invocations = [] \<rparr>"

subsection \<open>Notions used to state the properties\<close>

text \<open>The test \<open>span > duration\<close> of the scan, and the amount \<open>duration - span\<close> that
  enters \<open>minSpan\<close>, for the clock reading of the entry's iteration.\<close>

definition expired :: "cycle_env \<Rightarrow> state \<Rightarrow> addr \<Rightarrow> bool" where
  "expired env s a = (clock_entry env a - GetStartTime s a > ms_to_ns (GetDuration s a))"

definition remaining :: "cycle_env \<Rightarrow> state \<Rightarrow> addr \<Rightarrow> int" where
  "remaining env s a = ms_to_ns (GetDuration s a) - (clock_entry env a - GetStartTime s a)"

text \<open>The thread state an entry was created on.\<close>

definition thread_of :: "state \<Rightarrow> addr \<Rightarrow> thread_id" where
  "thread_of s a = m_State (m_ThState (heap s a))"

text \<open>Capsules installed on a slot one after the other (the oldest first), and
  the number of capsules of an entry in a slot.\<close>

fun push_capsules :: "addr list \<Rightarrow> trace_slot \<Rightarrow> trace_slot" where
  "push_capsules [] slot = slot"
| "push_capsules (a # as) slot = push_capsules as (OnTraceCapsule a slot)"

fun slot_count :: "addr \<Rightarrow> trace_slot \<Rightarrow> nat" where
  "slot_count a NoTrace = 0"
| "slot_count a (ForeignTrace f) = 0"
| "slot_count a (OnTraceCapsule b slot) = (if b = a then 1 else 0) + slot_count a slot"




text \<open>An environment for examples: every clock reading of the pass is \<open>t\<close>, and
  \<open>Py_AddPendingCall\<close> answers \<open>accepted\<close>.\<close>

definition env_at :: "int \<Rightarrow> bool \<Rightarrow> cycle_env" where
  "env_at t accepted =
     \<lparr> clock_start = t, clock_entry = (\<lambda>a. t), clock_end = t,
       pending_accepts = (\<lambda>a. accepted) \<rparr>"

text \<open>The sleep as the specification words it, in nanoseconds: the minimum
  remaining time minus the elapsed scan time, floored at the resolution quantum
  and at zero.\<close>

definition spec_sleep_duration :: "int \<Rightarrow> int \<Rightarrow> int" where
  "spec_sleep_duration min_remaining elapsed =
     max 0 (max (ms_to_ns INTERVAL_RESOLUTION) (min_remaining - elapsed))"

text \<open>The invocations made for an entry: their number and the events themselves.\<close>

definition fires :: "addr \<Rightarrow> state \<Rightarrow> nat" where
  "fires a s = length (filter (\<lambda>e. ev_injector e = a) (invocations s))"

definition fired :: "addr \<Rightarrow> state \<Rightarrow> call_event list" where
  "fired a s = filter (\<lambda>e. ev_injector e = a) (invocations s)"

text \<open>What can still lead to an invocation for an entry: its requests in the
  pending-call queue, its capsules in the trace slot of its thread, its place in
  the active map and its occurrences in \<open>m_NewVect\<close>.\<close>

definition outstanding :: "addr \<Rightarrow> state \<Rightarrow> nat" where
  "outstanding a s =
     count_list (pending_calls s) a + slot_count a (c_trace s (thread_of s a)) +
     (if a \<in> set (m_CallMap s) then 1 else 0) + count_list (m_NewVect s) a"

definition credit :: "addr \<Rightarrow> state \<Rightarrow> nat" where
  "credit a s = fires a s + outstanding a s"

text \<open>Whether a step calls \<open>CContextHelper::Start\<close> on the entry \<open>a\<close>: \<open>InjectorStart\<close> on a
  handle that holds \<open>a\<close>, or \<open>InjectorReset\<close>, which starts the entry it allocates.
  \<open>starts_in\<close> counts these calls along a run.\<close>

fun step_starts :: "step \<Rightarrow> state \<Rightarrow> addr \<Rightarrow> bool" where
  "step_starts (PyStart self now) s a = (py_injector s self = Some a)"
| "step_starts (PyReset cur self now) s a = (py_injector s self \<noteq> None \<and> a = next_addr s)"
| "step_starts (PyInit cur self time callback) s a = False"
| "step_starts (PyStop self) s a = False"
| "step_starts (Watchdog env) s a = False"
| "step_starts (PendingCall returns) s a = False"
| "step_starts (TraceEvent returns cur) s a = False"
| "step_starts Quit s a = False"

fun starts_in :: "addr \<Rightarrow> step list \<Rightarrow> state \<Rightarrow> nat" where
  "starts_in a [] s = 0"
| "starts_in a (st # steps) s =
     (if step_starts st s a then 1 else 0) +
     (case exec st s of Inl e \<Rightarrow> 0 | Inr s1 \<Rightarrow> starts_in a steps s1)"

text \<open>What holds of every state a run reaches from \<open>init_state\<close>: the keys of the
  map are distinct, a capsule sits in the slot of its entry's thread, and every
  address in use has been allocated.\<close>

definition consistent :: "state \<Rightarrow> bool" where
  "consistent s \<longleftrightarrow>
     distinct (m_CallMap s) \<and>
     (\<forall>t b. 0 < slot_count b (c_trace s t) \<longrightarrow> thread_of s b = t \<and> b < next_addr s) \<and>
     (\<forall>b. b \<in> set (m_CallMap s) \<or> b \<in> set (m_NewVect s) \<or> b \<in> set (pending_calls s)
          \<longrightarrow> b < next_addr s) \<and>
     (\<forall>h b. py_injector s h = Some b \<longrightarrow> b < next_addr s) \<and>
     (\<forall>e \<in> set (invocations s). ev_injector e < next_addr s)"

text \<open>The events \<open>OnFastTrace\<close> and \<open>OnTrace\<close> add to the log for an entry: one call if
  the entry is valid and has a callback, none otherwise.\<close>

definition delivered :: "addr \<Rightarrow> pyvalue option \<Rightarrow> state \<Rightarrow> call_event list" where
  "delivered a arg s =
     (if IsValid s a
      then (case GetCallback s a of
              None \<Rightarrow> []
            | Some f \<Rightarrow> [\<lparr> ev_injector = a, ev_callable = Some f, ev_argument = arg \<rparr>])
      else [])"

text \<open>An allocated entry whose flag has been cleared, and such an entry that is
  either out of the active map or listed in \<open>m_DelVect\<close> for the next merge.\<close>

definition released :: "addr \<Rightarrow> state \<Rightarrow> bool" where
  "released a s \<longleftrightarrow> \<not> IsValid s a \<and> a < next_addr s"

definition condemned :: "addr \<Rightarrow> state \<Rightarrow> bool" where
  "condemned a s \<longleftrightarrow>
     released a s \<and> (a \<in> set (m_CallMap s) \<longrightarrow> a \<in> set (m_DelVect s))"

text \<open>\<open>Stop()\<close> followed by a fresh \<open>Start()\<close> with the same callback and duration, as
  the specification words the meaning of \<open>Reset()\<close>: the callback and the duration
  are read, the old entry is stopped through \<open>CContextHelper::Stop\<close>, and a new
  entry with that callback and duration is created for the handle and started.\<close>

definition spec_Stop_then_fresh_Start ::
  "thread_id \<Rightarrow> handle \<Rightarrow> int \<Rightarrow> state \<Rightarrow> error + state" where
  "spec_Stop_then_fresh_Start cur self now s =
     (case py_injector s self of
        None \<Rightarrow> Inl NullDereference
      | Some old \<Rightarrow>
          (let callback = GetCallback s old;
               time = GetDuration s old;
               s1 = Stop old s;
               (injector, s2) = make_shared cur s1;
               s3 = s2\<lparr> py_injector := (py_injector s2)(self := Some injector) \<rparr>
           in case SetCallback injector callback s3 of
                Inl e \<Rightarrow> Inl e
              | Inr s4 \<Rightarrow>
                  Inr (Start injector
                        (RecordStartTime injector now (SetDuration injector time s4)))))"


text \<open>Whether a step is a pass of the watchdog, made inside its loop, that hands
  the entry to \<open>Attach\<close>; whether a run contains such a step; and whether a state
  holds a delivery for the entry, prepared or made.\<close>

fun step_dispatches :: "step \<Rightarrow> state \<Rightarrow> addr \<Rightarrow> bool" where
  "step_dispatches (Watchdog env) s a =
     (m_CheckTh s = InLoop \<and> a \<in> set (scan_attached env (m_CallMap s) s))"
| "step_dispatches (PyInit cur self time callback) s a = False"
| "step_dispatches (PyStart self now) s a = False"
| "step_dispatches (PyStop self) s a = False"
| "step_dispatches (PyReset cur self now) s a = False"
| "step_dispatches (PendingCall returns) s a = False"
| "step_dispatches (TraceEvent returns cur) s a = False"
| "step_dispatches Quit s a = False"

fun dispatched_in :: "addr \<Rightarrow> step list \<Rightarrow> state \<Rightarrow> bool" where
  "dispatched_in a [] s = False"
| "dispatched_in a (st # steps) s =
     (step_dispatches st s a \<or>
      (case exec st s of Inl e \<Rightarrow> False | Inr s1 \<Rightarrow> dispatched_in a steps s1))"

definition held :: "addr \<Rightarrow> state \<Rightarrow> bool" where
  "held a s \<longleftrightarrow>
     a \<in> set (pending_calls s) \<or> (\<exists>t. 0 < slot_count a (c_trace s t)) \<or>
     (\<exists>e \<in> set (invocations s). ev_injector e = a)"

section \<open>Properties\<close>

text \<open>The defining equations, for evaluating the model on a concrete run.\<close>

lemmas model_defs =
  init_state_def env_at_def InitPyInjector_def make_shared_def SetCallback_def SetDuration_def
  InjectorStart_def InjectorStop_def InjectorReset_def Start_def Stop_def Release_def
  RecordStartTime_def AddTimeoutCallback_def CallMap_insert_def CallMap_erase_def
  CallMap_contains_def notify_def Shutdown_def CheckThread_step_def CheckThread_control_def
  CheckThread_body_def
  Let_def GetStartTime_def GetDuration_def GetCallback_def IsValid_def IsMainThreadInjector_def
  ms_to_ns_def Attach_def FastCall_def Call_def Py_AddPendingCall_def PyEval_SetTrace_def
  CLocalInjector_ctor_def CThreadState_ctor_def g_MainThreadId_def Merge_def LLONG_MAX_def
  INTERVAL_RESOLUTION_def run_pending_call_def trace_event_def OnFastTrace_def OnTrace_def
  PyObject_CallFunction_def TimePointToPyFloat_def

subsection \<open>What a dispatch and a scan leave unchanged\<close>

lemma Attach_frame:
  "heap (Attach b a s) = heap s"
  "next_addr (Attach b a s) = next_addr s"
  "py_injector (Attach b a s) = py_injector s"
  "m_CheckTh (Attach b a s) = m_CheckTh s"
  "m_IsQuit (Attach b a s) = m_IsQuit s"
  "m_Running (Attach b a s) = m_Running s"
  "m_CallMap (Attach b a s) = m_CallMap s"
  "m_NewVect (Attach b a s) = m_NewVect s"
  "m_DelVect (Attach b a s) = m_DelVect s"
  "invocations (Attach b a s) = invocations s"
  by (simp_all add: Attach_def FastCall_def Call_def Py_AddPendingCall_def PyEval_SetTrace_def
      Let_def)

lemma Getters_heap:
  "heap s1 = heap s \<Longrightarrow> GetStartTime s1 = GetStartTime s"
  "heap s1 = heap s \<Longrightarrow> GetDuration s1 = GetDuration s"
  "heap s1 = heap s \<Longrightarrow> IsValid s1 = IsValid s"
  "heap s1 = heap s \<Longrightarrow> IsMainThreadInjector s1 = IsMainThreadInjector s"
  "heap s1 = heap s \<Longrightarrow> GetCallback s1 = GetCallback s"
  by (auto simp: GetStartTime_def GetDuration_def IsValid_def IsMainThreadInjector_def
      GetCallback_def fun_eq_iff)

lemma scan_loop_frame:
  "heap (snd (scan_loop env keys m s)) = heap s"
  "next_addr (snd (scan_loop env keys m s)) = next_addr s"
  "py_injector (snd (scan_loop env keys m s)) = py_injector s"
  "m_CheckTh (snd (scan_loop env keys m s)) = m_CheckTh s"
  "m_IsQuit (snd (scan_loop env keys m s)) = m_IsQuit s"
  "m_Running (snd (scan_loop env keys m s)) = m_Running s"
  "m_NewVect (snd (scan_loop env keys m s)) = m_NewVect s"
  "m_DelVect (snd (scan_loop env keys m s)) = m_DelVect s"
  "invocations (snd (scan_loop env keys m s)) = invocations s"
  by (induction keys arbitrary: m s;
      simp add: Let_def Attach_frame GetStartTime_def GetDuration_def)+

lemma scan_attached_cong:
  "heap s1 = heap s \<Longrightarrow> m_IsQuit s1 = m_IsQuit s \<Longrightarrow>
   scan_attached env keys s1 = scan_attached env keys s"
  by (induction keys) (simp_all add: Let_def GetStartTime_def GetDuration_def)

lemma scan_attached_expired:
  "a \<in> set (scan_attached env keys s) \<Longrightarrow> expired env s a \<and> a \<in> set keys"
  by (induction keys) (auto simp: Let_def expired_def split: if_splits)

lemma scan_attached_no_quit:
  "\<not> m_IsQuit s \<Longrightarrow> scan_attached env keys s = filter (expired env s) keys"
  by (induction keys) (simp_all add: Let_def expired_def)

subsection \<open>The state after a scan\<close>

lemma scan_loop_CallMap:
  "m_CallMap (snd (scan_loop env keys m s)) =
     filter (\<lambda>a. a \<notin> set (scan_attached env keys s)) (m_CallMap s)"
proof (induction keys arbitrary: m s)
  case Nil
  show ?case by simp
next
  case (Cons a keys)
  show ?case
  proof (cases "clock_entry env a - GetStartTime s a > ms_to_ns (GetDuration s a)")
    case True
    let ?s1 = "Attach (pending_accepts env a) a s"
    let ?s2 = "?s1\<lparr> m_CallMap := CallMap_erase a (m_CallMap ?s1) \<rparr>"
    have att: "scan_attached env keys ?s2 = scan_attached env keys s"
      by (rule scan_attached_cong) (simp_all add: Attach_frame)
    have "m_CallMap (snd (scan_loop env (a # keys) m s)) =
        m_CallMap (snd (scan_loop env keys m ?s2))"
      using True by (simp add: Let_def)
    also have "\<dots> = filter (\<lambda>x. x \<notin> set (scan_attached env keys s)) (m_CallMap ?s2)"
      using Cons.IH [of m ?s2] att by simp
    also have "\<dots> = filter (\<lambda>x. x \<notin> set (a # scan_attached env keys s)) (m_CallMap s)"
      by (auto simp add: Attach_frame CallMap_erase_def removeAll_filter_not_eq
          intro!: filter_cong)
    finally show ?thesis using True by (simp add: Let_def)
  next
    case False
    then show ?thesis using Cons.IH [of _ s] by (simp add: Let_def)
  qed
qed

lemma scan_loop_minSpan:
  "\<not> m_IsQuit s \<Longrightarrow>
   fst (scan_loop env keys m s) =
     fold min (map (remaining env s) (filter (\<lambda>a. \<not> expired env s a) keys)) m"
proof (induction keys arbitrary: m s)
  case Nil
  show ?case by simp
next
  case (Cons a keys)
  show ?case
  proof (cases "clock_entry env a - GetStartTime s a > ms_to_ns (GetDuration s a)")
    case True
    let ?s1 = "Attach (pending_accepts env a) a s"
    let ?s2 = "?s1\<lparr> m_CallMap := CallMap_erase a (m_CallMap ?s1) \<rparr>"
    have h: "heap ?s2 = heap s" "\<not> m_IsQuit ?s2"
      using Cons.prems by (simp_all add: Attach_frame)
    show ?thesis
      using True Cons.IH [of ?s2 m] h
      by (simp add: Let_def remaining_def expired_def Getters_heap(1,2) [OF h(1)]
          cong: filter_cong map_cong)
  next
    case False
    then show ?thesis
      using Cons.IH [of s] Cons.prems
      by (simp add: Let_def remaining_def expired_def min.commute)
  qed
qed

lemma scan_visited_cong:
  "heap s1 = heap s \<Longrightarrow> m_IsQuit s1 = m_IsQuit s \<Longrightarrow>
   scan_visited env keys s1 = scan_visited env keys s"
  by (induction keys) (simp_all add: Let_def GetStartTime_def GetDuration_def)

lemma scan_visited_no_quit: "\<not> m_IsQuit s \<Longrightarrow> scan_visited env keys s = keys"
  by (induction keys) (simp_all add: Let_def)

lemma scan_visited_quit:
  "m_IsQuit s \<Longrightarrow>
   scan_visited env keys s =
     takeWhile (expired env s) keys @ take 1 (dropWhile (expired env s) keys)"
  by (induction keys) (simp_all add: Let_def expired_def)

lemma scan_loop_minSpan_visited:
  "fst (scan_loop env keys m s) =
     fold min (map (remaining env s)
       (filter (\<lambda>a. \<not> expired env s a) (scan_visited env keys s))) m"
proof (induction keys arbitrary: m s)
  case Nil
  show ?case by simp
next
  case (Cons a keys)
  show ?case
  proof (cases "clock_entry env a - GetStartTime s a > ms_to_ns (GetDuration s a)")
    case True
    let ?s1 = "Attach (pending_accepts env a) a s"
    let ?s2 = "?s1\<lparr> m_CallMap := CallMap_erase a (m_CallMap ?s1) \<rparr>"
    have h: "heap ?s2 = heap s" "m_IsQuit ?s2 = m_IsQuit s"
      by (simp_all add: Attach_frame)
    have v: "scan_visited env keys ?s2 = scan_visited env keys s"
      by (rule scan_visited_cong [OF h])
    have r: "remaining env ?s2 = remaining env s" "expired env ?s2 = expired env s"
      by (simp_all add: remaining_def expired_def fun_eq_iff Getters_heap(1,2) [OF h(1)])
    have "fst (scan_loop env (a # keys) m s) = fst (scan_loop env keys m ?s2)"
      using True by (simp add: Let_def)
    also have "\<dots> = fold min (map (remaining env s)
        (filter (\<lambda>a. \<not> expired env s a) (scan_visited env keys s))) m"
      using Cons.IH [of m ?s2] by (simp only: v r)
    finally show ?thesis using True by (simp add: Let_def expired_def)
  next
    case False
    then show ?thesis
      using Cons.IH [of "min m (ms_to_ns (GetDuration s a) - (clock_entry env a - GetStartTime s a))" s]
      by (simp add: Let_def remaining_def expired_def min.commute)
  qed
qed

lemma scan_loop_pending:
  "pending_calls (snd (scan_loop env keys m s)) =
     pending_calls s @
       filter (\<lambda>b. IsMainThreadInjector s b \<and> IsValid s b \<and> pending_accepts env b)
         (scan_attached env keys s)"
proof (induction keys arbitrary: m s)
  case Nil
  show ?case by simp
next
  case (Cons a keys)
  show ?case
  proof (cases "clock_entry env a - GetStartTime s a > ms_to_ns (GetDuration s a)")
    case True
    let ?s1 = "Attach (pending_accepts env a) a s"
    let ?s2 = "?s1\<lparr> m_CallMap := CallMap_erase a (m_CallMap ?s1) \<rparr>"
    have h: "heap ?s2 = heap s" "m_IsQuit ?s2 = m_IsQuit s"
      by (simp_all add: Attach_frame)
    have att: "scan_attached env keys ?s2 = scan_attached env keys s"
      by (rule scan_attached_cong [OF h])
    have p: "pending_calls ?s2 = pending_calls s @
        (if IsMainThreadInjector s a \<and> IsValid s a \<and> pending_accepts env a then [a] else [])"
      by (simp add: Attach_def FastCall_def Call_def Py_AddPendingCall_def PyEval_SetTrace_def
          Let_def)
    have "pending_calls (snd (scan_loop env (a # keys) m s)) =
        pending_calls (snd (scan_loop env keys m ?s2))"
      using True by (simp add: Let_def)
    also have "\<dots> = pending_calls ?s2 @
       filter (\<lambda>b. IsMainThreadInjector s b \<and> IsValid s b \<and> pending_accepts env b)
         (scan_attached env keys s)"
      using Cons.IH [of m ?s2] att Getters_heap(3,4) [OF h(1)] by simp
    finally show ?thesis using True p by (simp add: Let_def)
  next
    case False
    then show ?thesis using Cons.IH [of _ s] by (simp add: Let_def)
  qed
qed

lemma scan_loop_trace:
  "c_trace (snd (scan_loop env keys m s)) t =
     push_capsules
       (filter (\<lambda>b. \<not> IsMainThreadInjector s b \<and> IsValid s b \<and> thread_of s b = t)
         (scan_attached env keys s))
       (c_trace s t)"
proof (induction keys arbitrary: m s)
  case Nil
  show ?case by simp
next
  case (Cons a keys)
  show ?case
  proof (cases "clock_entry env a - GetStartTime s a > ms_to_ns (GetDuration s a)")
    case True
    let ?s1 = "Attach (pending_accepts env a) a s"
    let ?s2 = "?s1\<lparr> m_CallMap := CallMap_erase a (m_CallMap ?s1) \<rparr>"
    have h: "heap ?s2 = heap s" "m_IsQuit ?s2 = m_IsQuit s"
      by (simp_all add: Attach_frame)
    have att: "scan_attached env keys ?s2 = scan_attached env keys s"
      by (rule scan_attached_cong [OF h])
    have th: "thread_of ?s2 = thread_of s"
      using h(1) by (simp add: thread_of_def fun_eq_iff)
    have p: "c_trace ?s2 t =
        (if \<not> IsMainThreadInjector s a \<and> IsValid s a \<and> thread_of s a = t
         then OnTraceCapsule a (c_trace s t) else c_trace s t)"
      by (simp add: Attach_def FastCall_def Call_def Py_AddPendingCall_def PyEval_SetTrace_def
          Let_def thread_of_def)
    have "c_trace (snd (scan_loop env (a # keys) m s)) t =
        c_trace (snd (scan_loop env keys m ?s2)) t"
      using True by (simp add: Let_def)
    also have "\<dots> = push_capsules
       (filter (\<lambda>b. \<not> IsMainThreadInjector s b \<and> IsValid s b \<and> thread_of s b = t)
         (scan_attached env keys s)) (c_trace ?s2 t)"
      using Cons.IH [of m ?s2] att th Getters_heap(3,4) [OF h(1)] by simp
    finally show ?thesis using True p by (simp add: Let_def)
  next
    case False
    then show ?thesis using Cons.IH [of _ s] by (simp add: Let_def)
  qed
qed

lemma scan_dispatches_expired_only:
  "(\<forall>a \<in> set (scan_attached env (m_CallMap s) s).
      a \<in> set (m_CallMap s) \<and>
      clock_entry env a - GetStartTime s a > ms_to_ns (GetDuration s a)) \<and>
   pending_calls (snd (scan_loop env (m_CallMap s) LLONG_MAX s)) =
     pending_calls s @
       filter (\<lambda>b. IsMainThreadInjector s b \<and> IsValid s b \<and> pending_accepts env b)
         (scan_attached env (m_CallMap s) s) \<and>
   (\<forall>t. c_trace (snd (scan_loop env (m_CallMap s) LLONG_MAX s)) t =
     push_capsules
       (filter (\<lambda>b. \<not> IsMainThreadInjector s b \<and> IsValid s b \<and> thread_of s b = t)
         (scan_attached env (m_CallMap s) s))
       (c_trace s t)) \<and>
   invocations (snd (scan_loop env (m_CallMap s) LLONG_MAX s)) = invocations s"
  using scan_attached_expired [of _ env "m_CallMap s" s]
  by (simp add: scan_loop_pending scan_loop_trace scan_loop_frame expired_def)

lemma slot_count_push:
  "slot_count a (push_capsules xs slot) = count_list xs a + slot_count a slot"
  by (induction xs arbitrary: slot) auto

lemma fold_min_Min: "fold min xs (m::int) = Min (insert m (set xs))"
proof (induction xs arbitrary: m)
  case Nil
  show ?case by simp
next
  case (Cons x xs)
  have "Min (insert (min x m) (set xs)) = Min (insert m (insert x (set xs)))"
    by (cases "set xs = {}") (simp_all add: min.commute min.left_commute min.assoc)
  with Cons show ?case by simp
qed

subsection \<open>The body and the step of the watchdog thread\<close>

lemma CheckThread_body_sleep:
  "fst (CheckThread_body env s) =
     (if fst (scan_loop env (m_CallMap s) LLONG_MAX s) - (clock_end env - clock_start env)
           > ms_to_ns INTERVAL_RESOLUTION
      then 1 else 0)"
  by (simp add: CheckThread_body_def Let_def split: prod.splits)

lemma CheckThread_body_state:
  "snd (CheckThread_body env s) =
     (let s2 = Merge (snd (scan_loop env (m_CallMap s) LLONG_MAX s))
      in if m_CallMap s2 = [] then s2\<lparr> m_Running := False \<rparr> else s2)"
  by (simp add: CheckThread_body_def Let_def split: prod.splits)

lemma CheckThread_step_state:
  "snd (CheckThread_step env s) =
     (if m_CheckTh s \<noteq> InLoop then s\<lparr> m_CheckTh := CheckThread_control s \<rparr>
      else (snd (CheckThread_body env s))\<lparr> m_CheckTh := AtWhileRunning \<rparr>)"
  by (simp add: CheckThread_step_def CheckThread_control_def case_prod_beta Let_def)

subsection \<open>Merge\<close>

lemma Merge_erase_loop_filter:
  "Merge_erase_loop dels m = filter (\<lambda>a. a \<notin> set dels) m"
proof (induction dels arbitrary: m)
  case Nil
  show ?case by simp
next
  case (Cons d dels)
  have "filter (\<lambda>a. a \<notin> set dels) (removeAll d m) = filter (\<lambda>a. a \<notin> set (d # dels)) m"
    by (induction m) auto
  with Cons show ?case by (simp add: CallMap_erase_def)
qed

lemma Merge_add_loop_foldl:
  "Merge_add_loop h news m =
     foldl (\<lambda>acc a. CallMap_insert a acc) m (filter (\<lambda>a. m_IsValid (h a)) news)"
  by (induction news arbitrary: m) simp_all

lemma set_foldl_CallMap_insert:
  "set (foldl (\<lambda>acc a. CallMap_insert a acc) m xs) = set m \<union> set xs"
  by (induction xs arbitrary: m) (auto simp: CallMap_insert_def)

lemma distinct_foldl_CallMap_insert:
  "distinct m \<Longrightarrow> distinct (foldl (\<lambda>acc a. CallMap_insert a acc) m xs)"
  by (induction xs arbitrary: m) (auto simp: CallMap_insert_def)

lemma Merge_CallMap:
  "m_CallMap (Merge s) =
     foldl (\<lambda>acc a. CallMap_insert a acc)
       (filter (\<lambda>a. a \<notin> set (m_DelVect s)) (m_CallMap s))
       (filter (\<lambda>a. IsValid s a) (m_NewVect s))"
  by (simp add: Merge_def Merge_erase_loop_filter Merge_add_loop_foldl IsValid_def Let_def)

lemma set_Merge_CallMap:
  "set (m_CallMap (Merge s)) =
     (set (m_CallMap s) - set (m_DelVect s)) \<union> {a \<in> set (m_NewVect s). IsValid s a}"
  by (auto simp: Merge_CallMap set_foldl_CallMap_insert)

lemma Merge_vects: "m_NewVect (Merge s) = []" "m_DelVect (Merge s) = []"
  by (simp_all add: Merge_def Let_def)

lemma Merge_frame:
  "heap (Merge s) = heap s"
  "next_addr (Merge s) = next_addr s"
  "py_injector (Merge s) = py_injector s"
  "m_CheckTh (Merge s) = m_CheckTh s"
  "m_IsQuit (Merge s) = m_IsQuit s"
  "m_Running (Merge s) = m_Running s"
  "pending_calls (Merge s) = pending_calls s"
  "c_trace (Merge s) = c_trace s"
  "invocations (Merge s) = invocations s"
  by (simp_all add: Merge_def Let_def)

subsection \<open>Runs: what every reachable state satisfies\<close>

lemma consistent_init: "consistent init_state"
  by (simp add: consistent_def init_state_def)

lemma Start_fields:
  "heap (Start a s) = heap s"
  "next_addr (Start a s) = next_addr s"
  "py_injector (Start a s) = py_injector s"
  "m_DelVect (Start a s) = m_DelVect s"
  "pending_calls (Start a s) = pending_calls s"
  "c_trace (Start a s) = c_trace s"
  "invocations (Start a s) = invocations s"
  "m_CallMap (Start a s) = (if m_Running s then m_CallMap s else CallMap_insert a (m_CallMap s))"
  "m_NewVect (Start a s) = (if m_Running s then m_NewVect s @ [a] else m_NewVect s)"
  "m_Running (Start a s) = True"
  by (simp_all add: Start_def AddTimeoutCallback_def notify_def Let_def)

lemma Stop_fields:
  "heap (Stop a s) = (heap s)(a := (heap s a)\<lparr> m_IsValid := False, m_Callback := None \<rparr>)"
  "next_addr (Stop a s) = next_addr s"
  "py_injector (Stop a s) = py_injector s"
  "m_NewVect (Stop a s) = m_NewVect s"
  "pending_calls (Stop a s) = pending_calls s"
  "c_trace (Stop a s) = c_trace s"
  "invocations (Stop a s) = invocations s"
  "m_CheckTh (Stop a s) = m_CheckTh s"
  "m_IsQuit (Stop a s) = m_IsQuit s"
  "m_Running (Stop a s) = m_Running s"
  "m_CallMap (Stop a s) =
     (if a \<in> set (m_CallMap s) \<and> \<not> m_Running s then removeAll a (m_CallMap s) else m_CallMap s)"
  "m_DelVect (Stop a s) =
     (if a \<in> set (m_CallMap s) \<and> m_Running s then m_DelVect s @ [a] else m_DelVect s)"
  by (simp_all add: Stop_def Release_def CallMap_contains_def CallMap_erase_def Let_def)

lemma scan_attached_subseq:
  "set (scan_attached env keys s) \<subseteq> set keys"
  "distinct keys \<Longrightarrow> distinct (scan_attached env keys s)"
  by (induction keys) (auto simp: Let_def)

lemma count_list_distinct: "distinct xs \<Longrightarrow> count_list xs a = (if a \<in> set xs then 1 else 0)"
  by (induction xs) auto

lemma count_list_filter_le: "count_list (filter P xs) a \<le> count_list xs a"
  by (induction xs) auto

lemma count_list_filter_not: "\<not> P a \<Longrightarrow> count_list (filter P xs) a = 0"
  by (induction xs) auto

lemma thread_of_heap: "heap s1 = heap s \<Longrightarrow> thread_of s1 = thread_of s"
  by (simp add: thread_of_def fun_eq_iff)

lemma slot_count_push_pos:
  "0 < slot_count b (push_capsules xs slot) \<longleftrightarrow> b \<in> set xs \<or> 0 < slot_count b slot"
proof -
  have "0 < count_list xs b \<longleftrightarrow> b \<in> set xs"
    using count_list_0_iff [of xs b] by auto
  then show ?thesis by (simp add: slot_count_push)
qed

lemma count_list_filter_distinct_le: "distinct xs \<Longrightarrow> count_list (filter P xs) a \<le> 1"
  by (induction xs) (auto simp: count_list_0_iff)

lemma consistentI:
  assumes "distinct (m_CallMap s)"
    and "\<And>t b. 0 < slot_count b (c_trace s t) \<Longrightarrow> thread_of s b = t"
    and "\<And>t b. 0 < slot_count b (c_trace s t) \<Longrightarrow> b < next_addr s"
    and "\<And>b. b \<in> set (m_CallMap s) \<Longrightarrow> b < next_addr s"
    and "\<And>b. b \<in> set (m_NewVect s) \<Longrightarrow> b < next_addr s"
    and "\<And>b. b \<in> set (pending_calls s) \<Longrightarrow> b < next_addr s"
    and "\<And>h b. py_injector s h = Some b \<Longrightarrow> b < next_addr s"
    and "\<And>e. e \<in> set (invocations s) \<Longrightarrow> ev_injector e < next_addr s"
  shows "consistent s"
  using assms unfolding consistent_def by blast

lemma consistentD:
  assumes "consistent s"
  shows "distinct (m_CallMap s)"
    and "\<And>t b. 0 < slot_count b (c_trace s t) \<Longrightarrow> thread_of s b = t"
    and "\<And>t b. 0 < slot_count b (c_trace s t) \<Longrightarrow> b < next_addr s"
    and "\<And>b. b \<in> set (m_CallMap s) \<Longrightarrow> b < next_addr s"
    and "\<And>b. b \<in> set (m_NewVect s) \<Longrightarrow> b < next_addr s"
    and "\<And>b. b \<in> set (pending_calls s) \<Longrightarrow> b < next_addr s"
    and "\<And>h b. py_injector s h = Some b \<Longrightarrow> b < next_addr s"
    and "\<And>e. e \<in> set (invocations s) \<Longrightarrow> ev_injector e < next_addr s"
  using assms unfolding consistent_def by blast+

lemma scan_outstanding:
  assumes d: "distinct (m_CallMap s)"
  shows "outstanding a (snd (scan_loop env (m_CallMap s) LLONG_MAX s)) \<le> outstanding a s"
proof -
  let ?att = "scan_attached env (m_CallMap s) s"
  let ?s1 = "snd (scan_loop env (m_CallMap s) LLONG_MAX s)"
  let ?P = "\<lambda>b. IsMainThreadInjector s b \<and> IsValid s b \<and> pending_accepts env b"
  let ?Q = "\<lambda>b. \<not> IsMainThreadInjector s b \<and> IsValid s b \<and> thread_of s b = thread_of s a"
  have datt: "distinct ?att" and sub: "set ?att \<subseteq> set (m_CallMap s)"
    using d scan_attached_subseq by auto
  have th: "thread_of ?s1 = thread_of s"
    by (rule thread_of_heap) (simp add: scan_loop_frame)
  have o1: "outstanding a ?s1 =
      count_list (pending_calls s) a + count_list (filter ?P ?att) a +
      (count_list (filter ?Q ?att) a + slot_count a (c_trace s (thread_of s a))) +
      (if a \<in> set (m_CallMap s) \<and> a \<notin> set ?att then 1 else 0) + count_list (m_NewVect s) a"
    by (simp add: outstanding_def th scan_loop_pending scan_loop_trace scan_loop_CallMap
        scan_loop_frame slot_count_push)
  show ?thesis
  proof (cases "a \<in> set ?att")
    case True
    have "count_list (filter ?P ?att) a + count_list (filter ?Q ?att) a \<le> 1"
    proof (cases "IsMainThreadInjector s a")
      case True
      then have "count_list (filter ?Q ?att) a = 0" by (simp add: count_list_filter_not)
      moreover have "count_list (filter ?P ?att) a \<le> 1"
        by (rule count_list_filter_distinct_le [OF datt])
      ultimately show ?thesis by simp
    next
      case False
      then have "count_list (filter ?P ?att) a = 0" by (simp add: count_list_filter_not)
      moreover have "count_list (filter ?Q ?att) a \<le> 1"
        by (rule count_list_filter_distinct_le [OF datt])
      ultimately show ?thesis by simp
    qed
    moreover have "a \<in> set (m_CallMap s)" using True sub by auto
    ultimately show ?thesis using True unfolding o1 by (simp add: outstanding_def)
  next
    case False
    then have "count_list (filter ?P ?att) a = 0" "count_list (filter ?Q ?att) a = 0"
      by (simp_all add: count_list_0_iff)
    then show ?thesis using False unfolding o1 by (simp add: outstanding_def)
  qed
qed

lemma Merge_outstanding: "outstanding a (Merge s) \<le> outstanding a s"
proof -
  have th: "thread_of (Merge s) = thread_of s"
    by (rule thread_of_heap) (simp add: Merge_frame)
  have "a \<in> set (m_CallMap (Merge s)) \<Longrightarrow> a \<in> set (m_CallMap s) \<or> 0 < count_list (m_NewVect s) a"
    by (auto simp: set_Merge_CallMap count_list_0_iff)
  then show ?thesis
    by (auto simp add: outstanding_def th Merge_frame Merge_vects)
qed

lemma distinct_Merge: "distinct (m_CallMap s) \<Longrightarrow> distinct (m_CallMap (Merge s))"
  by (simp add: Merge_CallMap distinct_foldl_CallMap_insert)

lemma distinct_scan: "distinct (m_CallMap s) \<Longrightarrow> distinct (m_CallMap (snd (scan_loop env keys m s)))"
  by (simp add: scan_loop_CallMap)

lemma outstanding_cong:
  "heap s1 = heap s \<Longrightarrow> pending_calls s1 = pending_calls s \<Longrightarrow> c_trace s1 = c_trace s \<Longrightarrow>
   m_CallMap s1 = m_CallMap s \<Longrightarrow> m_NewVect s1 = m_NewVect s \<Longrightarrow>
   outstanding a s1 = outstanding a s"
  by (simp add: outstanding_def thread_of_def)

lemma body_outstanding:
  assumes d: "distinct (m_CallMap s)"
  shows "outstanding a (snd (CheckThread_body env s)) \<le> outstanding a s"
proof -
  let ?s1 = "snd (scan_loop env (m_CallMap s) LLONG_MAX s)"
  have "outstanding a (snd (CheckThread_body env s)) = outstanding a (Merge ?s1)"
    by (auto simp: CheckThread_body_state Let_def intro!: outstanding_cong)
  also have "\<dots> \<le> outstanding a ?s1" by (rule Merge_outstanding)
  also have "\<dots> \<le> outstanding a s" by (rule scan_outstanding [OF d])
  finally show ?thesis .
qed

lemma step_outstanding:
  assumes d: "distinct (m_CallMap s)"
  shows "outstanding a (snd (CheckThread_step env s)) \<le> outstanding a s"
proof -
  have "outstanding a (snd (CheckThread_step env s)) =
      (if m_CheckTh s \<noteq> InLoop then outstanding a s else outstanding a (snd (CheckThread_body env s)))"
    by (auto simp: CheckThread_step_state Let_def intro!: outstanding_cong)
  then show ?thesis using body_outstanding [OF d] by simp
qed

lemma body_frame:
  "heap (snd (CheckThread_body env s)) = heap s"
  "next_addr (snd (CheckThread_body env s)) = next_addr s"
  "py_injector (snd (CheckThread_body env s)) = py_injector s"
  "invocations (snd (CheckThread_body env s)) = invocations s"
  "m_IsQuit (snd (CheckThread_body env s)) = m_IsQuit s"
  "m_CheckTh (snd (CheckThread_body env s)) = m_CheckTh s"
  by (simp_all add: CheckThread_body_state Let_def Merge_frame scan_loop_frame)

lemma step_frame:
  "heap (snd (CheckThread_step env s)) = heap s"
  "next_addr (snd (CheckThread_step env s)) = next_addr s"
  "py_injector (snd (CheckThread_step env s)) = py_injector s"
  "invocations (snd (CheckThread_step env s)) = invocations s"
  "m_IsQuit (snd (CheckThread_step env s)) = m_IsQuit s"
  by (simp_all add: CheckThread_step_state Let_def body_frame)

lemma consistent_body:
  assumes w: "consistent s"
  shows "consistent (snd (CheckThread_body env s))"
proof -
  let ?att = "scan_attached env (m_CallMap s) s"
  let ?s1 = "snd (scan_loop env (m_CallMap s) LLONG_MAX s)"
  let ?s2 = "Merge ?s1"
  have sub: "set ?att \<subseteq> set (m_CallMap s)" using scan_attached_subseq by auto
  have th1: "thread_of ?s1 = thread_of s" by (rule thread_of_heap) (simp add: scan_loop_frame)
  have w1: "consistent ?s1"
  proof (rule consistentI)
    show "distinct (m_CallMap ?s1)" using consistentD(1) [OF w] by (simp add: distinct_scan)
  next
    fix t b assume "0 < slot_count b (c_trace ?s1 t)"
    then have "(b \<in> set ?att \<and> thread_of s b = t) \<or> 0 < slot_count b (c_trace s t)"
      by (auto simp: scan_loop_trace slot_count_push_pos)
    then show "thread_of ?s1 b = t"
      using consistentD(2) [OF w] unfolding th1 by auto
  next
    fix t b assume "0 < slot_count b (c_trace ?s1 t)"
    then have "b \<in> set ?att \<or> 0 < slot_count b (c_trace s t)"
      by (auto simp: scan_loop_trace slot_count_push_pos)
    then show "b < next_addr ?s1"
      using consistentD(3,4) [OF w] sub by (auto simp: scan_loop_frame)
  next
    fix b assume "b \<in> set (m_CallMap ?s1)"
    then show "b < next_addr ?s1"
      using consistentD(4) [OF w] by (simp add: scan_loop_CallMap scan_loop_frame)
  next
    fix b assume "b \<in> set (m_NewVect ?s1)"
    then show "b < next_addr ?s1"
      using consistentD(5) [OF w] by (simp add: scan_loop_frame)
  next
    fix b assume "b \<in> set (pending_calls ?s1)"
    then show "b < next_addr ?s1"
      using consistentD(4,6) [OF w] sub by (auto simp: scan_loop_pending scan_loop_frame)
  next
    fix h b assume "py_injector ?s1 h = Some b"
    then show "b < next_addr ?s1" using consistentD(7) [OF w] by (simp add: scan_loop_frame)
  next
    fix e assume "e \<in> set (invocations ?s1)"
    then show "ev_injector e < next_addr ?s1" using consistentD(8) [OF w] by (simp add: scan_loop_frame)
  qed
  have th2: "thread_of ?s2 = thread_of ?s1" by (rule thread_of_heap) (simp add: Merge_frame)
  have w2: "consistent ?s2"
    using w1 unfolding consistent_def th2
    by (auto simp: Merge_frame Merge_vects distinct_Merge set_Merge_CallMap)
  have "consistent (?s2\<lparr> m_Running := False \<rparr>)"
    using w2 by (simp add: consistent_def thread_of_def)
  with w2 show ?thesis by (simp add: CheckThread_body_state Let_def)
qed

lemma consistent_step: "consistent s \<Longrightarrow> consistent (snd (CheckThread_step env s))"
  using consistent_body [of s env]
  by (auto simp: CheckThread_step_state Let_def consistent_def thread_of_def)

lemmas api_defs =
  InitPyInjector_def InjectorStart_def InjectorStop_def InjectorReset_def make_shared_def
  SetCallback_def SetDuration_def RecordStartTime_def Release_def

lemma consistent_no_slot: "consistent s \<Longrightarrow> \<not> a < next_addr s \<Longrightarrow> slot_count a (c_trace s t) = 0"
  using consistentD(3) [where s=s and t=t and b=a] by auto

text \<open>Allocation of a new entry.\<close>

lemma consistent_alloc:
  assumes w: "consistent s"
  shows "consistent (s\<lparr> heap := (heap s)(next_addr s := x), next_addr := Suc (next_addr s) \<rparr>)"
proof (rule consistentI)
  let ?s1 = "s\<lparr> heap := (heap s)(next_addr s := x), next_addr := Suc (next_addr s) \<rparr>"
  show "distinct (m_CallMap ?s1)" using consistentD(1) [OF w] by simp
  {
    fix t b assume "0 < slot_count b (c_trace ?s1 t)"
    then have p: "0 < slot_count b (c_trace s t)" by simp
    from consistentD(2,3) [OF w p] show "thread_of ?s1 b = t" by (simp add: thread_of_def)
    from consistentD(3) [OF w p] show "b < next_addr ?s1" by simp
  }
  {
    fix b assume "b \<in> set (m_CallMap ?s1)"
    then show "b < next_addr ?s1" using consistentD(4) [OF w, of b] by simp
  }
  {
    fix b assume "b \<in> set (m_NewVect ?s1)"
    then show "b < next_addr ?s1" using consistentD(5) [OF w, of b] by simp
  }
  {
    fix b assume "b \<in> set (pending_calls ?s1)"
    then show "b < next_addr ?s1" using consistentD(6) [OF w, of b] by simp
  }
  {
    fix h b assume "py_injector ?s1 h = Some b"
    then show "b < next_addr ?s1" using consistentD(7) [OF w, of h b] by simp
  }
  {
    fix e assume "e \<in> set (invocations ?s1)"
    then show "ev_injector e < next_addr ?s1" using consistentD(8) [OF w, of e] by simp
  }
qed

lemma consistent_heap_upd:
  "consistent s \<Longrightarrow> m_ThState x = m_ThState (heap s a) \<Longrightarrow> consistent (s\<lparr> heap := (heap s)(a := x) \<rparr>)"
  unfolding consistent_def by (simp add: thread_of_def)

lemma consistent_handle_upd:
  "consistent s \<Longrightarrow> a < next_addr s \<Longrightarrow> consistent (s\<lparr> py_injector := (py_injector s)(h := Some a) \<rparr>)"
  unfolding consistent_def by (simp add: thread_of_def)

lemma consistent_Release: "consistent s \<Longrightarrow> consistent (Release a s)"
  unfolding Release_def by (rule consistent_heap_upd) simp_all

lemma consistent_SetDuration: "consistent s \<Longrightarrow> consistent (SetDuration a ms s)"
  unfolding SetDuration_def by (rule consistent_heap_upd) simp_all

lemma consistent_RecordStartTime: "consistent s \<Longrightarrow> consistent (RecordStartTime a now s)"
  unfolding RecordStartTime_def by (rule consistent_heap_upd) simp_all

lemma consistent_SetCallback: "consistent s \<Longrightarrow> SetCallback a func s = Inr s1 \<Longrightarrow> consistent s1"
  using consistent_heap_upd [of s "(heap s a)\<lparr> m_Callback := func \<rparr>" a]
  by (auto simp: SetCallback_def split: option.splits)

lemma consistent_make_shared: "consistent s \<Longrightarrow> consistent (snd (make_shared cur s))"
  unfolding make_shared_def using consistent_alloc by simp

lemma make_shared_fields:
  "fst (make_shared cur s) = next_addr s"
  "next_addr (snd (make_shared cur s)) = Suc (next_addr s)"
  "py_injector (snd (make_shared cur s)) = py_injector s"
  "m_CallMap (snd (make_shared cur s)) = m_CallMap s"
  "m_NewVect (snd (make_shared cur s)) = m_NewVect s"
  "m_DelVect (snd (make_shared cur s)) = m_DelVect s"
  "pending_calls (snd (make_shared cur s)) = pending_calls s"
  "c_trace (snd (make_shared cur s)) = c_trace s"
  "invocations (snd (make_shared cur s)) = invocations s"
  "m_Running (snd (make_shared cur s)) = m_Running s"
  "m_IsQuit (snd (make_shared cur s)) = m_IsQuit s"
  "m_CheckTh (snd (make_shared cur s)) = m_CheckTh s"
  "heap (snd (make_shared cur s)) = (heap s)(next_addr s := CLocalInjector_ctor cur)"
  by (simp_all add: make_shared_def)

lemma consistent_Start: "consistent s \<Longrightarrow> a < next_addr s \<Longrightarrow> consistent (Start a s)"
  unfolding consistent_def
  by (simp add: Start_fields CallMap_insert_def thread_of_def)

lemma consistent_Stop: "consistent s \<Longrightarrow> consistent (Stop a s)"
  unfolding consistent_def
  by (simp add: Stop_fields thread_of_def distinct_removeAll)

lemma InitPyInjector_eq:
  "InitPyInjector cur self time callback s =
     (let s1 = snd (make_shared cur s);
          s2 = s1\<lparr> py_injector := (py_injector s1)(self := Some (next_addr s)) \<rparr>
      in case SetCallback (next_addr s) (Some callback) s2 of
           Inl e \<Rightarrow> Inl e
         | Inr s3 \<Rightarrow> Inr (SetDuration (next_addr s) time s3))"
  by (simp add: InitPyInjector_def make_shared_def Let_def)

lemma InjectorReset_eq:
  "InjectorReset cur self now s =
     (case py_injector s self of
        None \<Rightarrow> Inl NullDereference
      | Some old \<Rightarrow>
          (let s1 = snd (make_shared cur (Release old s));
               s3 = s1\<lparr> py_injector := (py_injector s1)(self := Some (next_addr s)) \<rparr>
           in case SetCallback (next_addr s) (GetCallback s old) s3 of
                Inl e \<Rightarrow> Inl e
              | Inr s4 \<Rightarrow>
                  Inr (Start (next_addr s)
                        (RecordStartTime (next_addr s) now
                          (SetDuration (next_addr s) (GetDuration s old) s4)))))"
  by (simp add: InjectorReset_def make_shared_def Release_def Let_def
      split: option.splits sum.splits)

lemma next_addr_simple:
  "next_addr (Release a s) = next_addr s"
  "next_addr (SetDuration a ms s) = next_addr s"
  "next_addr (RecordStartTime a now s) = next_addr s"
  "SetCallback a func s = Inr s1 \<Longrightarrow> next_addr s1 = next_addr s"
  by (auto simp: Release_def SetDuration_def RecordStartTime_def SetCallback_def split: option.splits)

lemma consistent_PyInit:
  assumes w: "consistent s" and e: "InitPyInjector cur self time callback s = Inr s1"
  shows "consistent s1"
proof -
  let ?s1 = "snd (make_shared cur s)"
  let ?s2 = "?s1\<lparr> py_injector := (py_injector ?s1)(self := Some (next_addr s)) \<rparr>"
  have w2: "consistent ?s2"
    by (rule consistent_handle_upd [OF consistent_make_shared [OF w]]) (simp add: make_shared_fields)
  from e obtain s3 where s3: "SetCallback (next_addr s) (Some callback) ?s2 = Inr s3"
    and s1: "s1 = SetDuration (next_addr s) time s3"
    by (auto simp: InitPyInjector_eq Let_def split: sum.splits)
  show ?thesis unfolding s1 by (rule consistent_SetDuration [OF consistent_SetCallback [OF w2 s3]])
qed

lemma consistent_PyStart:
  assumes w: "consistent s" and e: "InjectorStart self now s = Inr s1"
  shows "consistent s1"
proof -
  from e obtain a where a: "py_injector s self = Some a"
    and s1: "s1 = Start a (RecordStartTime a now s)"
    by (auto simp: InjectorStart_def split: option.splits)
  have "a < next_addr s" using consistentD(7) [OF w a] .
  then show ?thesis unfolding s1
    by (intro consistent_Start consistent_RecordStartTime w) (simp add: next_addr_simple)
qed

lemma consistent_PyStop: "consistent s \<Longrightarrow> InjectorStop self s = Inr s1 \<Longrightarrow> consistent s1"
  using consistent_Stop by (auto simp: InjectorStop_def split: option.splits)

lemma consistent_PyReset:
  assumes w: "consistent s" and e: "InjectorReset cur self now s = Inr s1"
  shows "consistent s1"
proof -
  from e obtain old where old: "py_injector s self = Some old"
    by (auto simp: InjectorReset_eq split: option.splits)
  let ?n = "next_addr s"
  let ?s1 = "snd (make_shared cur (Release old s))"
  let ?s3 = "?s1\<lparr> py_injector := (py_injector ?s1)(self := Some ?n) \<rparr>"
  have w3: "consistent ?s3"
    by (rule consistent_handle_upd [OF consistent_make_shared [OF consistent_Release [OF w]]])
       (simp add: make_shared_fields next_addr_simple)
  from e old obtain s4 where s4: "SetCallback ?n (GetCallback s old) ?s3 = Inr s4"
    and s1: "s1 = Start ?n (RecordStartTime ?n now (SetDuration ?n (GetDuration s old) s4))"
    by (auto simp: InjectorReset_eq Let_def split: sum.splits)
  have w4: "consistent s4" by (rule consistent_SetCallback [OF w3 s4])
  have n4: "next_addr s4 = Suc ?n"
    using next_addr_simple(4) [OF s4] by (simp add: make_shared_fields next_addr_simple)
  show ?thesis unfolding s1
    by (intro consistent_Start consistent_RecordStartTime consistent_SetDuration w4) (simp add: next_addr_simple n4)
qed

lemma run_pending_call_fields:
  "heap (snd (run_pending_call r s)) = heap s"
  "next_addr (snd (run_pending_call r s)) = next_addr s"
  "py_injector (snd (run_pending_call r s)) = py_injector s"
  "m_CallMap (snd (run_pending_call r s)) = m_CallMap s"
  "m_NewVect (snd (run_pending_call r s)) = m_NewVect s"
  "m_DelVect (snd (run_pending_call r s)) = m_DelVect s"
  "m_Running (snd (run_pending_call r s)) = m_Running s"
  "m_IsQuit (snd (run_pending_call r s)) = m_IsQuit s"
  "m_CheckTh (snd (run_pending_call r s)) = m_CheckTh s"
  "c_trace (snd (run_pending_call r s)) = c_trace s"
  "pending_calls (snd (run_pending_call r s)) = tl (pending_calls s)"
  "invocations (snd (run_pending_call r s)) =
     invocations s @
       (case pending_calls s of
          [] \<Rightarrow> []
        | w # rest \<Rightarrow> delivered w (Some (PyFloat (GetStartTime s w))) s)"
  by (simp_all add: run_pending_call_def OnFastTrace_def PyObject_CallFunction_def
      IsValid_def GetCallback_def GetStartTime_def TimePointToPyFloat_def delivered_def Let_def
      split: list.splits option.splits)

lemma trace_event_fields:
  "heap (snd (trace_event r cur s)) = heap s"
  "next_addr (snd (trace_event r cur s)) = next_addr s"
  "py_injector (snd (trace_event r cur s)) = py_injector s"
  "m_CallMap (snd (trace_event r cur s)) = m_CallMap s"
  "m_NewVect (snd (trace_event r cur s)) = m_NewVect s"
  "m_DelVect (snd (trace_event r cur s)) = m_DelVect s"
  "m_Running (snd (trace_event r cur s)) = m_Running s"
  "m_IsQuit (snd (trace_event r cur s)) = m_IsQuit s"
  "m_CheckTh (snd (trace_event r cur s)) = m_CheckTh s"
  "pending_calls (snd (trace_event r cur s)) = pending_calls s"
  "c_trace (snd (trace_event r cur s)) =
     (case c_trace s cur of
        OnTraceCapsule b saved \<Rightarrow> (c_trace s)(cur := saved)
      | NoTrace \<Rightarrow> c_trace s
      | ForeignTrace f \<Rightarrow> c_trace s)"
  "invocations (snd (trace_event r cur s)) =
     invocations s @
       (case c_trace s cur of
          OnTraceCapsule b saved \<Rightarrow> delivered b None s
        | NoTrace \<Rightarrow> []
        | ForeignTrace f \<Rightarrow> [])"
  by (simp_all add: trace_event_def OnTrace_def PyObject_CallFunction_def PyEval_SetTrace_def
      IsValid_def GetCallback_def TimePointToPyFloat_def delivered_def Let_def
      split: trace_slot.splits option.splits)

lemma delivered_injector: "e \<in> set (delivered a arg s) \<Longrightarrow> ev_injector e = a"
  by (cases "GetCallback s a"; cases "IsValid s a") (auto simp: delivered_def)

lemma delivered_count:
  "length (filter (\<lambda>e. ev_injector e = b) (delivered a arg s)) \<le> (if a = b then 1 else 0)"
  by (cases "GetCallback s a"; cases "IsValid s a") (auto simp: delivered_def)

lemma consistent_PendingCall:
  assumes w: "consistent s"
  shows "consistent (snd (run_pending_call r s))"
proof (rule consistentI)
  let ?s1 = "snd (run_pending_call r s)"
  have th: "thread_of ?s1 = thread_of s"
    by (rule thread_of_heap) (simp add: run_pending_call_fields)
  show "distinct (m_CallMap ?s1)" using consistentD(1) [OF w] by (simp add: run_pending_call_fields)
  {
    fix t b assume p: "0 < slot_count b (c_trace ?s1 t)"
    then have p: "0 < slot_count b (c_trace s t)" by (simp add: run_pending_call_fields)
    from consistentD(2) [OF w p] show "thread_of ?s1 b = t" by (simp add: th)
    from consistentD(3) [OF w p] show "b < next_addr ?s1" by (simp add: run_pending_call_fields)
  }
  {
    fix b assume "b \<in> set (m_CallMap ?s1)"
    then show "b < next_addr ?s1" using consistentD(4) [OF w, of b] by (simp add: run_pending_call_fields)
  }
  {
    fix b assume "b \<in> set (m_NewVect ?s1)"
    then show "b < next_addr ?s1" using consistentD(5) [OF w, of b] by (simp add: run_pending_call_fields)
  }
  {
    fix b assume "b \<in> set (pending_calls ?s1)"
    then have "b \<in> set (pending_calls s)"
      by (cases "pending_calls s") (simp_all add: run_pending_call_fields)
    then show "b < next_addr ?s1" using consistentD(6) [OF w, of b] by (simp add: run_pending_call_fields)
  }
  {
    fix h b assume "py_injector ?s1 h = Some b"
    then show "b < next_addr ?s1" using consistentD(7) [OF w, of h b] by (simp add: run_pending_call_fields)
  }
  {
    fix e assume "e \<in> set (invocations ?s1)"
    then have "e \<in> set (invocations s) \<or> (\<exists>b \<in> set (pending_calls s). ev_injector e = b)"
      by (cases "pending_calls s") (auto simp: run_pending_call_fields dest: delivered_injector)
    then show "ev_injector e < next_addr ?s1"
      using consistentD(8) [OF w, of e] consistentD(6) [OF w] by (auto simp: run_pending_call_fields)
  }
qed

lemma slot_count_saved:
  "slot = OnTraceCapsule b saved \<Longrightarrow> 0 < slot_count a saved \<Longrightarrow> 0 < slot_count a slot"
  by simp

lemma consistent_TraceEvent:
  assumes w: "consistent s"
  shows "consistent (snd (trace_event r cur s))"
proof (rule consistentI)
  let ?s1 = "snd (trace_event r cur s)"
  have th: "thread_of ?s1 = thread_of s"
    by (rule thread_of_heap) (simp add: trace_event_fields)
  have sl: "\<And>t b. 0 < slot_count b (c_trace ?s1 t) \<Longrightarrow> 0 < slot_count b (c_trace s t)"
    by (auto simp: trace_event_fields split: trace_slot.splits if_splits)
  show "distinct (m_CallMap ?s1)" using consistentD(1) [OF w] by (simp add: trace_event_fields)
  {
    fix t b assume p: "0 < slot_count b (c_trace ?s1 t)"
    from consistentD(2) [OF w sl [OF p]] show "thread_of ?s1 b = t" by (simp add: th)
    from consistentD(3) [OF w sl [OF p]] show "b < next_addr ?s1" by (simp add: trace_event_fields)
  }
  {
    fix b assume "b \<in> set (m_CallMap ?s1)"
    then show "b < next_addr ?s1" using consistentD(4) [OF w, of b] by (simp add: trace_event_fields)
  }
  {
    fix b assume "b \<in> set (m_NewVect ?s1)"
    then show "b < next_addr ?s1" using consistentD(5) [OF w, of b] by (simp add: trace_event_fields)
  }
  {
    fix b assume "b \<in> set (pending_calls ?s1)"
    then show "b < next_addr ?s1" using consistentD(6) [OF w, of b] by (simp add: trace_event_fields)
  }
  {
    fix h b assume "py_injector ?s1 h = Some b"
    then show "b < next_addr ?s1" using consistentD(7) [OF w, of h b] by (simp add: trace_event_fields)
  }
  {
    fix e assume e: "e \<in> set (invocations ?s1)"
    show "ev_injector e < next_addr ?s1"
    proof (cases "e \<in> set (invocations s)")
      case True
      then show ?thesis using consistentD(8) [OF w, of e] by (simp add: trace_event_fields)
    next
      case False
      with e obtain b saved where c: "c_trace s cur = OnTraceCapsule b saved"
        and d: "e \<in> set (delivered b None s)"
        by (cases "c_trace s cur") (auto simp: trace_event_fields)
      have "0 < slot_count b (c_trace s cur)" using c by simp
      from consistentD(3) [OF w this] delivered_injector [OF d] show ?thesis
        by (simp add: trace_event_fields)
    qed
  }
qed

lemma consistent_Shutdown: "consistent s \<Longrightarrow> consistent (Shutdown s)"
  unfolding consistent_def by (simp add: Shutdown_def notify_def thread_of_def)

lemma consistent_exec: "consistent s \<Longrightarrow> exec st s = Inr s1 \<Longrightarrow> consistent s1"
  by (cases st)
     (auto intro: consistent_PyInit consistent_PyStart consistent_PyStop consistent_PyReset consistent_step consistent_PendingCall
        consistent_TraceEvent consistent_Shutdown)

lemma consistent_run: "consistent s \<Longrightarrow> run steps s = Inr s1 \<Longrightarrow> consistent s1"
  by (induction steps arbitrary: s) (auto split: sum.splits dest: consistent_exec)

subsection \<open>Runs: invocations against starts\<close>

lemma fires_cong: "invocations s1 = invocations s \<Longrightarrow> fires a s1 = fires a s"
  by (simp add: fires_def)

lemma outstanding_heap_upd:
  "m_ThState x = m_ThState (heap s b) \<Longrightarrow>
   outstanding a (s\<lparr> heap := (heap s)(b := x) \<rparr>) = outstanding a s"
  by (simp add: outstanding_def thread_of_def)

lemma outstanding_alloc:
  assumes w: "consistent s"
  shows "outstanding a (s\<lparr> heap := (heap s)(next_addr s := x), next_addr := Suc (next_addr s) \<rparr>)
         = outstanding a s"
proof (cases "a = next_addr s")
  case True
  then have "\<And>t. slot_count a (c_trace s t) = 0" using consistent_no_slot [OF w] by simp
  then show ?thesis by (simp add: outstanding_def)
next
  case False
  then show ?thesis by (simp add: outstanding_def thread_of_def)
qed

lemma outstanding_handle_upd:
  "outstanding a (s\<lparr> py_injector := f \<rparr>) = outstanding a s"
  by (simp add: outstanding_def thread_of_def)

lemma outstanding_Start:
  "outstanding a (Start b s) \<le> outstanding a s + (if a = b then 1 else 0)"
  by (simp add: outstanding_def Start_fields thread_of_def CallMap_insert_def)

lemma outstanding_Stop: "outstanding a (Stop b s) \<le> outstanding a s"
  by (simp add: outstanding_def Stop_fields thread_of_def)

lemma outstanding_simple:
  "outstanding a (Release b s) = outstanding a s"
  "outstanding a (SetDuration b ms s) = outstanding a s"
  "outstanding a (RecordStartTime b now s) = outstanding a s"
  "SetCallback b func s = Inr s1 \<Longrightarrow> outstanding a s1 = outstanding a s"
  by (auto simp: Release_def SetDuration_def RecordStartTime_def SetCallback_def
      outstanding_heap_upd split: option.splits)

lemma invocations_simple:
  "invocations (Release b s) = invocations s"
  "invocations (SetDuration b ms s) = invocations s"
  "invocations (RecordStartTime b now s) = invocations s"
  "SetCallback b func s = Inr s1 \<Longrightarrow> invocations s1 = invocations s"
  "invocations (Shutdown s) = invocations s"
  by (auto simp: Release_def SetDuration_def RecordStartTime_def SetCallback_def Shutdown_def
      notify_def split: option.splits)

lemma outstanding_make_shared:
  "consistent s \<Longrightarrow> outstanding a (snd (make_shared cur s)) = outstanding a s"
  unfolding make_shared_def using outstanding_alloc by simp

lemma credit_PyInit:
  assumes w: "consistent s" and e: "InitPyInjector cur self time callback s = Inr s1"
  shows "credit a s1 = credit a s"
proof -
  let ?s1 = "snd (make_shared cur s)"
  let ?s2 = "?s1\<lparr> py_injector := (py_injector ?s1)(self := Some (next_addr s)) \<rparr>"
  from e obtain s3 where s3: "SetCallback (next_addr s) (Some callback) ?s2 = Inr s3"
    and s1: "s1 = SetDuration (next_addr s) time s3"
    by (auto simp: InitPyInjector_eq Let_def split: sum.splits)
  have "outstanding a s1 = outstanding a ?s2"
    unfolding s1 by (simp add: outstanding_simple(2) outstanding_simple(4) [OF s3])
  also have "\<dots> = outstanding a s"
    by (simp add: outstanding_handle_upd outstanding_make_shared [OF w])
  finally have o: "outstanding a s1 = outstanding a s" .
  have "invocations s1 = invocations s"
    unfolding s1 by (simp add: invocations_simple(2) invocations_simple(4) [OF s3] make_shared_fields)
  then show ?thesis using o by (simp add: credit_def fires_def)
qed

lemma credit_PyStart:
  assumes e: "InjectorStart self now s = Inr s1"
  shows "credit a s1 \<le> credit a s + (if py_injector s self = Some a then 1 else 0)"
proof -
  from e obtain b where b: "py_injector s self = Some b"
    and s1: "s1 = Start b (RecordStartTime b now s)"
    by (auto simp: InjectorStart_def split: option.splits)
  have "outstanding a s1 \<le> outstanding a s + (if a = b then 1 else 0)"
    unfolding s1 using outstanding_Start [of a b "RecordStartTime b now s"]
    by (simp add: outstanding_simple)
  moreover have "fires a s1 = fires a s"
    unfolding s1 by (rule fires_cong) (simp add: Start_fields invocations_simple)
  ultimately show ?thesis using b by (auto simp: credit_def)
qed

lemma credit_PyStop:
  assumes e: "InjectorStop self s = Inr s1"
  shows "credit a s1 \<le> credit a s"
proof -
  from e obtain b where s1: "s1 = Stop b s"
    by (auto simp: InjectorStop_def split: option.splits)
  have "fires a s1 = fires a s"
    unfolding s1 by (rule fires_cong) (simp add: Stop_fields)
  then show ?thesis using outstanding_Stop [of a b s] by (simp add: credit_def s1)
qed

lemma credit_PyReset:
  assumes w: "consistent s" and e: "InjectorReset cur self now s = Inr s1"
  shows "credit a s1 \<le> credit a s + (if a = next_addr s then 1 else 0)"
proof -
  from e obtain old where old: "py_injector s self = Some old"
    by (auto simp: InjectorReset_eq split: option.splits)
  let ?n = "next_addr s"
  let ?s1 = "snd (make_shared cur (Release old s))"
  let ?s3 = "?s1\<lparr> py_injector := (py_injector ?s1)(self := Some ?n) \<rparr>"
  let ?s5 = "\<lambda>s4. RecordStartTime ?n now (SetDuration ?n (GetDuration s old) s4)"
  from e old obtain s4 where s4: "SetCallback ?n (GetCallback s old) ?s3 = Inr s4"
    and s1: "s1 = Start ?n (?s5 s4)"
    by (auto simp: InjectorReset_eq Let_def split: sum.splits)
  have "outstanding a (?s5 s4) = outstanding a ?s3"
    by (simp add: outstanding_simple(2,3) outstanding_simple(4) [OF s4])
  also have "\<dots> = outstanding a (Release old s)"
    by (simp add: outstanding_handle_upd outstanding_make_shared [OF consistent_Release [OF w]])
  also have "\<dots> = outstanding a s" by (simp add: outstanding_simple)
  finally have o: "outstanding a (?s5 s4) = outstanding a s" .
  have "outstanding a s1 \<le> outstanding a s + (if a = ?n then 1 else 0)"
    unfolding s1 using outstanding_Start [of a ?n "?s5 s4"] o by simp
  moreover have "fires a s1 = fires a s"
    unfolding s1
    by (rule fires_cong)
       (simp add: Start_fields invocations_simple(2,3) invocations_simple(4) [OF s4]
          make_shared_fields invocations_simple(1))
  ultimately show ?thesis by (simp add: credit_def)
qed

lemma credit_Watchdog:
  assumes w: "consistent s"
  shows "credit a (snd (CheckThread_step env s)) \<le> credit a s"
  using step_outstanding [OF consistentD(1) [OF w], of a env]
  by (simp add: credit_def fires_def step_frame)

lemma credit_PendingCall:
  "credit a (snd (run_pending_call r s)) \<le> credit a s"
proof (cases "pending_calls s")
  case Nil
  then show ?thesis
    by (simp add: credit_def fires_def outstanding_def thread_of_def run_pending_call_fields)
next
  case (Cons w rest)
  have "fires a (snd (run_pending_call r s)) \<le> fires a s + (if w = a then 1 else 0)"
    using delivered_count [of a w "Some (PyFloat (GetStartTime s w))" s] Cons
    by (simp add: fires_def run_pending_call_fields)
  moreover have "outstanding a (snd (run_pending_call r s)) + (if w = a then 1 else 0)
      = outstanding a s"
    using Cons by (simp add: outstanding_def thread_of_def run_pending_call_fields)
  ultimately show ?thesis by (simp add: credit_def)
qed

lemma credit_TraceEvent:
  assumes w: "consistent s"
  shows "credit a (snd (trace_event r cur s)) \<le> credit a s"
proof (cases "c_trace s cur")
  case NoTrace
  then show ?thesis
    by (simp add: credit_def fires_def outstanding_def thread_of_def trace_event_fields)
next
  case (ForeignTrace f)
  then show ?thesis
    by (simp add: credit_def fires_def outstanding_def thread_of_def trace_event_fields)
next
  case (OnTraceCapsule b saved)
  have tb: "thread_of s b = cur"
    using consistentD(2) [OF w, of b cur] OnTraceCapsule by simp
  have f: "fires a (snd (trace_event r cur s)) \<le> fires a s + (if b = a then 1 else 0)"
    using delivered_count [of a b None s] OnTraceCapsule
    by (simp add: fires_def trace_event_fields)
  have o: "outstanding a (snd (trace_event r cur s)) + (if b = a then 1 else 0)
      = outstanding a s"
    using OnTraceCapsule tb
    by (auto simp: outstanding_def thread_of_def trace_event_fields)
  from f o show ?thesis by (simp add: credit_def)
qed

lemma Shutdown_fields:
  "heap (Shutdown s) = heap s"
  "next_addr (Shutdown s) = next_addr s"
  "py_injector (Shutdown s) = py_injector s"
  "m_CallMap (Shutdown s) = m_CallMap s"
  "m_NewVect (Shutdown s) = m_NewVect s"
  "m_DelVect (Shutdown s) = m_DelVect s"
  "m_Running (Shutdown s) = m_Running s"
  "pending_calls (Shutdown s) = pending_calls s"
  "c_trace (Shutdown s) = c_trace s"
  "invocations (Shutdown s) = invocations s"
  by (simp_all add: Shutdown_def notify_def)

lemma credit_Shutdown: "credit a (Shutdown s) = credit a s"
  by (simp add: credit_def fires_def outstanding_def thread_of_def Shutdown_fields)

lemma credit_exec:
  assumes w: "consistent s" and e: "exec st s = Inr s1"
  shows "credit a s1 \<le> credit a s + (if step_starts st s a then 1 else 0)"
proof (cases st)
  case (PyInit cur self time callback)
  then show ?thesis using credit_PyInit [OF w, of cur self time callback s1 a] e by simp
next
  case (PyStart self now)
  then show ?thesis using credit_PyStart [of self now s s1 a] e by simp
next
  case (PyStop self)
  then show ?thesis using credit_PyStop [of self s s1 a] e by simp
next
  case (PyReset cur self now)
  then have "py_injector s self \<noteq> None"
    using e by (cases "py_injector s self") (simp_all add: InjectorReset_def)
  then show ?thesis using credit_PyReset [OF w, of cur self now s1 a] e PyReset by simp
next
  case (Watchdog env)
  then show ?thesis using credit_Watchdog [OF w, of a env] e by auto
next
  case (PendingCall r)
  then show ?thesis using credit_PendingCall [of a r s] e by auto
next
  case (TraceEvent r cur)
  then show ?thesis using credit_TraceEvent [OF w, of a r cur] e by auto
next
  case Quit
  then show ?thesis using e credit_Shutdown [of a s] by auto
qed

lemma credit_run:
  "consistent s \<Longrightarrow> run steps s = Inr s1 \<Longrightarrow> credit a s1 \<le> credit a s + starts_in a steps s"
proof (induction steps arbitrary: s)
  case Nil
  then show ?case by simp
next
  case (Cons st steps)
  from Cons.prems(2) obtain s2 where e: "exec st s = Inr s2" and r: "run steps s2 = Inr s1"
    by (auto split: sum.splits)
  have w2: "consistent s2" by (rule consistent_exec [OF Cons.prems(1) e])
  have "credit a s1 \<le> credit a s2 + starts_in a steps s2" by (rule Cons.IH [OF w2 r])
  also have "credit a s2 \<le> credit a s + (if step_starts st s a then 1 else 0)"
    by (rule credit_exec [OF Cons.prems(1) e])
  finally show ?case using e by simp
qed

lemma credit_init: "credit a init_state = 0"
  by (simp add: credit_def fires_def outstanding_def init_state_def)

subsection \<open>Runs: a released entry\<close>

lemma released_heap_upd:
  "released a s \<Longrightarrow> (m_IsValid x \<longrightarrow> b \<noteq> a) \<Longrightarrow> released a (s\<lparr> heap := (heap s)(b := x) \<rparr>)"
  by (auto simp: released_def IsValid_def)

lemma released_simple:
  "released a s \<Longrightarrow> released a (Release b s)"
  "released a s \<Longrightarrow> released a (SetDuration b ms s)"
  "released a s \<Longrightarrow> released a (RecordStartTime b now s)"
  "released a s \<Longrightarrow> released a (Start b s)"
  "released a s \<Longrightarrow> released a (Stop b s)"
  "released a s \<Longrightarrow> released a (Shutdown s)"
  "released a s \<Longrightarrow> released a (snd (CheckThread_step env s))"
  "released a s \<Longrightarrow> released a (snd (run_pending_call r s))"
  "released a s \<Longrightarrow> released a (snd (trace_event r cur s))"
  by (auto simp: released_def IsValid_def Release_def SetDuration_def RecordStartTime_def
      Start_fields Stop_fields Shutdown_fields step_frame run_pending_call_fields
      trace_event_fields)

lemma released_make_shared: "released a s \<Longrightarrow> released a (snd (make_shared cur s))"
  by (auto simp: released_def IsValid_def make_shared_def)

lemma released_SetCallback:
  "released a s \<Longrightarrow> SetCallback b func s = Inr s1 \<Longrightarrow> released a s1"
  by (cases func) (auto simp: released_def IsValid_def SetCallback_def split: if_splits)

lemma released_handle_upd: "released a s \<Longrightarrow> released a (s\<lparr> py_injector := f \<rparr>)"
  by (simp add: released_def IsValid_def)

lemma released_exec:
  assumes rel: "released a s" and e: "exec st s = Inr s1"
  shows "released a s1"
proof (cases st)
  case (PyInit cur self time callback)
  let ?s1 = "snd (make_shared cur s)"
  let ?s2 = "?s1\<lparr> py_injector := (py_injector ?s1)(self := Some (next_addr s)) \<rparr>"
  from e PyInit obtain s3 where s3: "SetCallback (next_addr s) (Some callback) ?s2 = Inr s3"
    and s1: "s1 = SetDuration (next_addr s) time s3"
    by (auto simp: InitPyInjector_eq Let_def split: sum.splits)
  show ?thesis unfolding s1
    by (intro released_simple released_SetCallback [OF _ s3] released_handle_upd
        released_make_shared rel)
next
  case (PyStart self now)
  with e obtain b where "s1 = Start b (RecordStartTime b now s)"
    by (auto simp: InjectorStart_def split: option.splits)
  then show ?thesis using rel by (simp add: released_simple)
next
  case (PyStop self)
  with e obtain b where "s1 = Stop b s"
    by (auto simp: InjectorStop_def split: option.splits)
  then show ?thesis using rel by (simp add: released_simple)
next
  case (PyReset cur self now)
  with e obtain old where old: "py_injector s self = Some old"
    by (auto simp: InjectorReset_eq split: option.splits)
  let ?n = "next_addr s"
  let ?s1 = "snd (make_shared cur (Release old s))"
  let ?s3 = "?s1\<lparr> py_injector := (py_injector ?s1)(self := Some ?n) \<rparr>"
  from e old PyReset obtain s4 where s4: "SetCallback ?n (GetCallback s old) ?s3 = Inr s4"
    and s1: "s1 = Start ?n (RecordStartTime ?n now (SetDuration ?n (GetDuration s old) s4))"
    by (auto simp: InjectorReset_eq Let_def split: sum.splits)
  show ?thesis unfolding s1
    by (intro released_simple released_SetCallback [OF _ s4] released_handle_upd
        released_make_shared rel)
next
  case (Watchdog env)
  then show ?thesis using e rel released_simple(7) by auto
next
  case (PendingCall r)
  then show ?thesis using e rel released_simple(8) by auto
next
  case (TraceEvent r cur)
  then show ?thesis using e rel released_simple(9) by auto
next
  case Quit
  then show ?thesis using e rel released_simple(6) by auto
qed

lemma delivered_released: "\<not> IsValid s a \<Longrightarrow> delivered a arg s = []"
  by (simp add: delivered_def)

lemma fired_cong: "invocations s1 = invocations s \<Longrightarrow> fired a s1 = fired a s"
  by (simp add: fired_def)

lemma filter_delivered_other:
  "b \<noteq> a \<Longrightarrow> filter (\<lambda>e. ev_injector e = a) (delivered b arg s) = []"
  by (auto simp: filter_empty_conv dest: delivered_injector)

lemma fired_exec:
  assumes rel: "released a s" and e: "exec st s = Inr s1"
  shows "fired a s1 = fired a s"
proof (cases st)
  case (PyInit cur self time callback)
  let ?s1 = "snd (make_shared cur s)"
  let ?s2 = "?s1\<lparr> py_injector := (py_injector ?s1)(self := Some (next_addr s)) \<rparr>"
  from e PyInit obtain s3 where s3: "SetCallback (next_addr s) (Some callback) ?s2 = Inr s3"
    and s1: "s1 = SetDuration (next_addr s) time s3"
    by (auto simp: InitPyInjector_eq Let_def split: sum.splits)
  show ?thesis unfolding s1
    by (rule fired_cong)
       (simp add: invocations_simple(2) invocations_simple(4) [OF s3] make_shared_fields)
next
  case (PyStart self now)
  with e obtain b where "s1 = Start b (RecordStartTime b now s)"
    by (auto simp: InjectorStart_def split: option.splits)
  then show ?thesis by (simp add: fired_def Start_fields invocations_simple)
next
  case (PyStop self)
  with e obtain b where "s1 = Stop b s"
    by (auto simp: InjectorStop_def split: option.splits)
  then show ?thesis by (simp add: fired_def Stop_fields)
next
  case (PyReset cur self now)
  with e obtain old where old: "py_injector s self = Some old"
    by (auto simp: InjectorReset_eq split: option.splits)
  let ?n = "next_addr s"
  let ?s1 = "snd (make_shared cur (Release old s))"
  let ?s3 = "?s1\<lparr> py_injector := (py_injector ?s1)(self := Some ?n) \<rparr>"
  from e old PyReset obtain s4 where s4: "SetCallback ?n (GetCallback s old) ?s3 = Inr s4"
    and s1: "s1 = Start ?n (RecordStartTime ?n now (SetDuration ?n (GetDuration s old) s4))"
    by (auto simp: InjectorReset_eq Let_def split: sum.splits)
  show ?thesis unfolding s1
    by (rule fired_cong)
       (simp add: Start_fields invocations_simple(2,3) invocations_simple(4) [OF s4]
          make_shared_fields invocations_simple(1))
next
  case (Watchdog env)
  then show ?thesis using e by (auto simp: fired_def step_frame)
next
  case (PendingCall r)
  show ?thesis
  proof (cases "pending_calls s")
    case Nil
    then show ?thesis using e PendingCall by (auto simp: fired_def run_pending_call_fields)
  next
    case (Cons w rest)
    have "filter (\<lambda>e. ev_injector e = a) (delivered w (Some (PyFloat (GetStartTime s w))) s) = []"
      using rel delivered_released [of s a] filter_delivered_other [of w a]
      by (cases "w = a") (auto simp: released_def)
    then show ?thesis using e PendingCall Cons by (auto simp: fired_def run_pending_call_fields)
  qed
next
  case (TraceEvent r cur)
  show ?thesis
  proof (cases "c_trace s cur")
    case NoTrace
    then show ?thesis using e TraceEvent by (auto simp: fired_def trace_event_fields)
  next
    case (ForeignTrace f)
    then show ?thesis using e TraceEvent by (auto simp: fired_def trace_event_fields)
  next
    case (OnTraceCapsule b saved)
    have "filter (\<lambda>e. ev_injector e = a) (delivered b None s) = []"
      using rel delivered_released [of s a] filter_delivered_other [of b a]
      by (cases "b = a") (auto simp: released_def)
    then show ?thesis using e TraceEvent OnTraceCapsule
      by (auto simp: fired_def trace_event_fields)
  qed
next
  case Quit
  then show ?thesis using e by (auto simp: fired_def Shutdown_fields)
qed

lemma released_run:
  "released a s \<Longrightarrow> run steps s = Inr s1 \<Longrightarrow> released a s1 \<and> fired a s1 = fired a s"
proof (induction steps arbitrary: s)
  case Nil
  then show ?case by simp
next
  case (Cons st steps)
  from Cons.prems(2) obtain s2 where e: "exec st s = Inr s2" and r: "run steps s2 = Inr s1"
    by (auto split: sum.splits)
  from Cons.IH [OF released_exec [OF Cons.prems(1) e] r] fired_exec [OF Cons.prems(1) e]
  show ?case by simp
qed

lemma registry_simple:
  "m_CallMap (Release b s) = m_CallMap s" "m_DelVect (Release b s) = m_DelVect s"
  "m_NewVect (Release b s) = m_NewVect s" "m_Running (Release b s) = m_Running s"
  "m_CallMap (SetDuration b ms s) = m_CallMap s" "m_DelVect (SetDuration b ms s) = m_DelVect s"
  "m_NewVect (SetDuration b ms s) = m_NewVect s" "m_Running (SetDuration b ms s) = m_Running s"
  "m_CallMap (RecordStartTime b now s) = m_CallMap s"
  "m_DelVect (RecordStartTime b now s) = m_DelVect s"
  "m_NewVect (RecordStartTime b now s) = m_NewVect s"
  "m_Running (RecordStartTime b now s) = m_Running s"
  by (simp_all add: Release_def SetDuration_def RecordStartTime_def)

lemma registry_SetCallback:
  assumes "SetCallback b func s = Inr s1"
  shows "m_CallMap s1 = m_CallMap s" "m_DelVect s1 = m_DelVect s" "m_NewVect s1 = m_NewVect s"
    "m_Running s1 = m_Running s"
  using assms by (auto simp: SetCallback_def split: option.splits)

lemma Stop_condemned: "a < next_addr s \<Longrightarrow> condemned a (Stop a s)"
  by (simp add: condemned_def released_def IsValid_def Stop_fields)

lemma condemned_Start:
  "condemned a s \<Longrightarrow> b \<noteq> a \<Longrightarrow> condemned a (Start b s)"
  by (auto simp: condemned_def released_simple Start_fields CallMap_insert_def split: if_splits)

lemma condemned_Stop: "condemned a s \<Longrightarrow> condemned a (Stop b s)"
  by (auto simp: condemned_def released_simple Stop_fields split: if_splits)

lemma condemned_body_absent:
  assumes c: "condemned a s"
  shows "a \<notin> set (m_CallMap (snd (CheckThread_body env s)))"
proof -
  let ?s1 = "snd (scan_loop env (m_CallMap s) LLONG_MAX s)"
  have v: "\<not> IsValid ?s1 a"
    using c Getters_heap(3) [of ?s1 s] by (simp add: condemned_def released_def scan_loop_frame)
  have "a \<in> set (m_CallMap ?s1) \<Longrightarrow> a \<in> set (m_DelVect ?s1)"
    using c by (auto simp: condemned_def scan_loop_CallMap scan_loop_frame)
  with v have "a \<notin> set (m_CallMap (Merge ?s1))"
    by (auto simp: set_Merge_CallMap)
  then show ?thesis by (auto simp: CheckThread_body_state Let_def)
qed

lemma condemned_absent: "released a s \<Longrightarrow> a \<notin> set (m_CallMap s) \<Longrightarrow> condemned a s"
  by (simp add: condemned_def)

lemma condemned_step:
  assumes c: "condemned a s"
  shows "condemned a (snd (CheckThread_step env s))"
proof (cases "m_CheckTh s = InLoop")
  case False
  then show ?thesis
    using c by (simp add: CheckThread_step_state condemned_def released_def IsValid_def)
next
  case True
  have r: "released a (snd (CheckThread_step env s))"
    using c by (simp add: condemned_def released_simple)
  have "m_CallMap (snd (CheckThread_step env s)) = m_CallMap (snd (CheckThread_body env s))"
    using True by (simp add: CheckThread_step_state Let_def)
  with condemned_body_absent [OF c, of env] have "a \<notin> set (m_CallMap (snd (CheckThread_step env s)))"
    by simp
  with r show ?thesis by (rule condemned_absent)
qed

lemma condemned_exec:
  assumes c: "condemned a s" and e: "exec st s = Inr s1" and n: "\<not> step_starts st s a"
  shows "condemned a s1"
proof -
  have rel: "released a s1" using c released_exec [OF _ e] by (simp add: condemned_def)
  show ?thesis
  proof (cases st)
    case (PyInit cur self time callback)
    let ?s1 = "snd (make_shared cur s)"
    let ?s2 = "?s1\<lparr> py_injector := (py_injector ?s1)(self := Some (next_addr s)) \<rparr>"
    from e PyInit obtain s3 where s3: "SetCallback (next_addr s) (Some callback) ?s2 = Inr s3"
      and s1: "s1 = SetDuration (next_addr s) time s3"
      by (auto simp: InitPyInjector_eq Let_def split: sum.splits)
    have "m_CallMap s1 = m_CallMap s" "m_DelVect s1 = m_DelVect s"
      unfolding s1 by (simp_all add: registry_simple registry_SetCallback [OF s3] make_shared_fields)
    with c rel show ?thesis by (simp add: condemned_def)
  next
    case (PyStart self now)
    with e obtain b where b: "py_injector s self = Some b"
      and s1: "s1 = Start b (RecordStartTime b now s)"
      by (auto simp: InjectorStart_def split: option.splits)
    have ne: "b \<noteq> a" using n PyStart b by auto
    have "condemned a (RecordStartTime b now s)"
      using c by (simp add: condemned_def released_simple registry_simple)
    then show ?thesis unfolding s1 by (rule condemned_Start [OF _ ne])
  next
    case (PyStop self)
    with e obtain b where "s1 = Stop b s"
      by (auto simp: InjectorStop_def split: option.splits)
    then show ?thesis using condemned_Stop [OF c] by simp
  next
    case (PyReset cur self now)
    with e obtain old where old: "py_injector s self = Some old"
      by (auto simp: InjectorReset_eq split: option.splits)
    let ?n = "next_addr s"
    let ?s1 = "snd (make_shared cur (Release old s))"
    let ?s3 = "?s1\<lparr> py_injector := (py_injector ?s1)(self := Some ?n) \<rparr>"
    let ?s5 = "\<lambda>s4. RecordStartTime ?n now (SetDuration ?n (GetDuration s old) s4)"
    from e old PyReset obtain s4 where s4: "SetCallback ?n (GetCallback s old) ?s3 = Inr s4"
      and s1: "s1 = Start ?n (?s5 s4)"
      by (auto simp: InjectorReset_eq Let_def split: sum.splits)
    have ne: "?n \<noteq> a" using c by (auto simp: condemned_def released_def)
    have reg: "m_CallMap (?s5 s4) = m_CallMap s" "m_DelVect (?s5 s4) = m_DelVect s"
      by (simp_all add: registry_simple registry_SetCallback [OF s4] make_shared_fields)
    have "released a (?s5 s4)"
      using c
      by (intro released_simple released_SetCallback [OF _ s4] released_handle_upd
          released_make_shared) (simp add: condemned_def)
    with c reg have "condemned a (?s5 s4)" by (simp add: condemned_def)
    then show ?thesis unfolding s1 by (rule condemned_Start [OF _ ne])
  next
    case (Watchdog env)
    then show ?thesis using e condemned_step [OF c, of env] by auto
  next
    case (PendingCall r)
    then show ?thesis using e c rel by (auto simp: condemned_def run_pending_call_fields)
  next
    case (TraceEvent r cur)
    then show ?thesis using e c rel by (auto simp: condemned_def trace_event_fields)
  next
    case Quit
    then show ?thesis using e c rel by (auto simp: condemned_def Shutdown_fields)
  qed
qed

lemma condemned_run:
  "condemned a s \<Longrightarrow> run steps s = Inr s1 \<Longrightarrow> starts_in a steps s = 0 \<Longrightarrow> condemned a s1"
proof (induction steps arbitrary: s)
  case Nil
  then show ?case by simp
next
  case (Cons st steps)
  from Cons.prems(2) obtain s2 where e: "exec st s = Inr s2" and r: "run steps s2 = Inr s1"
    by (auto split: sum.splits)
  from Cons.prems(3) e have n: "\<not> step_starts st s a" and z: "starts_in a steps s2 = 0"
    by (auto split: if_splits)
  show ?case by (rule Cons.IH [OF condemned_exec [OF Cons.prems(1) e n] r z])
qed

lemma absent_exec:
  assumes rel: "released a s" and e: "exec st s = Inr s1" and n: "\<not> step_starts st s a"
    and ab: "a \<notin> set (m_CallMap s)"
  shows "a \<notin> set (m_CallMap s1)"
proof (cases st)
  case (PyInit cur self time callback)
  let ?s1 = "snd (make_shared cur s)"
  let ?s2 = "?s1\<lparr> py_injector := (py_injector ?s1)(self := Some (next_addr s)) \<rparr>"
  from e PyInit obtain s3 where s3: "SetCallback (next_addr s) (Some callback) ?s2 = Inr s3"
    and s1: "s1 = SetDuration (next_addr s) time s3"
    by (auto simp: InitPyInjector_eq Let_def split: sum.splits)
  have "m_CallMap s1 = m_CallMap s"
    unfolding s1 by (simp add: registry_simple registry_SetCallback [OF s3] make_shared_fields)
  with ab show ?thesis by simp
next
  case (PyStart self now)
  with e obtain b where b: "py_injector s self = Some b"
    and s1: "s1 = Start b (RecordStartTime b now s)"
    by (auto simp: InjectorStart_def split: option.splits)
  have ne: "b \<noteq> a" using n PyStart b by auto
  show ?thesis unfolding s1 using ab ne
    by (auto simp: Start_fields registry_simple CallMap_insert_def split: if_splits)
next
  case (PyStop self)
  with e obtain b where "s1 = Stop b s"
    by (auto simp: InjectorStop_def split: option.splits)
  then show ?thesis using ab by (auto simp: Stop_fields split: if_splits)
next
  case (PyReset cur self now)
  with e obtain old where old: "py_injector s self = Some old"
    by (auto simp: InjectorReset_eq split: option.splits)
  let ?n = "next_addr s"
  let ?s1 = "snd (make_shared cur (Release old s))"
  let ?s3 = "?s1\<lparr> py_injector := (py_injector ?s1)(self := Some ?n) \<rparr>"
  let ?s5 = "\<lambda>s4. RecordStartTime ?n now (SetDuration ?n (GetDuration s old) s4)"
  from e old PyReset obtain s4 where s4: "SetCallback ?n (GetCallback s old) ?s3 = Inr s4"
    and s1: "s1 = Start ?n (?s5 s4)"
    by (auto simp: InjectorReset_eq Let_def split: sum.splits)
  have ne: "?n \<noteq> a" using rel by (auto simp: released_def)
  have reg: "m_CallMap (?s5 s4) = m_CallMap s"
    by (simp add: registry_simple registry_SetCallback [OF s4] make_shared_fields)
  show ?thesis unfolding s1 using ab ne reg
    by (auto simp: Start_fields CallMap_insert_def split: if_splits)
next
  case (Watchdog env)
  have "condemned a s" using rel ab by (rule condemned_absent)
  from condemned_body_absent [OF this, of env] ab e Watchdog show ?thesis
    by (auto simp: CheckThread_step_state Let_def split: if_splits)
next
  case (PendingCall r)
  then show ?thesis using e ab by (auto simp: run_pending_call_fields)
next
  case (TraceEvent r cur)
  then show ?thesis using e ab by (auto simp: trace_event_fields)
next
  case Quit
  then show ?thesis using e ab by (auto simp: Shutdown_fields)
qed

lemma absent_run:
  "released a s \<Longrightarrow> a \<notin> set (m_CallMap s) \<Longrightarrow> run steps s = Inr s1 \<Longrightarrow>
   starts_in a steps s = 0 \<Longrightarrow> a \<notin> set (m_CallMap s1)"
proof (induction steps arbitrary: s)
  case Nil
  then show ?case by simp
next
  case (Cons st steps)
  from Cons.prems(3) obtain s2 where e: "exec st s = Inr s2" and r: "run steps s2 = Inr s1"
    by (auto split: sum.splits)
  from Cons.prems(4) e have n: "\<not> step_starts st s a" and z: "starts_in a steps s2 = 0"
    by (auto split: if_splits)
  show ?case
    by (rule Cons.IH [OF released_exec [OF Cons.prems(1) e]
          absent_exec [OF Cons.prems(1) e n Cons.prems(2)] r z])
qed

subsection \<open>Reset against Stop and a fresh Start\<close>






lemmas run_defs = model_defs fires_def outstanding_def thread_of_def fired_def
  spec_Stop_then_fresh_Start_def

subsection \<open>Runs: where a delivery comes from\<close>

lemma held_cong:
  "pending_calls s1 = pending_calls s \<Longrightarrow> c_trace s1 = c_trace s \<Longrightarrow>
   invocations s1 = invocations s \<Longrightarrow> held a s1 = held a s"
  by (simp add: held_def)

lemma held_simple:
  "held a (Release b s) = held a s"
  "held a (SetDuration b ms s) = held a s"
  "held a (RecordStartTime b now s) = held a s"
  "held a (Start b s) = held a s"
  "held a (Stop b s) = held a s"
  "held a (Shutdown s) = held a s"
  "held a (snd (make_shared cur s)) = held a s"
  "held a (s\<lparr> py_injector := f \<rparr>) = held a s"
  by (simp_all add: held_def Release_def SetDuration_def RecordStartTime_def Start_fields
      Stop_fields Shutdown_fields make_shared_fields)

lemma held_SetCallback: "SetCallback b func s = Inr s1 \<Longrightarrow> held a s1 = held a s"
  by (cases func) (auto simp: held_def SetCallback_def)

lemma held_step:
  assumes h: "held a (snd (CheckThread_step env s))"
  shows "held a s \<or> (m_CheckTh s = InLoop \<and> a \<in> set (scan_attached env (m_CallMap s) s))"
proof (cases "m_CheckTh s = InLoop")
  case False
  then show ?thesis using h by (simp add: CheckThread_step_state held_def)
next
  case True
  let ?s1 = "snd (scan_loop env (m_CallMap s) LLONG_MAX s)"
  have "pending_calls (snd (CheckThread_step env s)) = pending_calls ?s1"
    "c_trace (snd (CheckThread_step env s)) = c_trace ?s1"
    "invocations (snd (CheckThread_step env s)) = invocations ?s1"
    using True
    by (simp_all add: CheckThread_step_state CheckThread_body_state Let_def Merge_frame)
  then have "held a (snd (CheckThread_step env s)) = held a ?s1"
    by (rule held_cong)
  with h have "held a ?s1" by simp
  then have "held a s \<or> a \<in> set (scan_attached env (m_CallMap s) s)"
    by (auto simp: held_def scan_loop_pending scan_loop_trace scan_loop_frame slot_count_push_pos)
  with True show ?thesis by simp
qed

lemma held_exec:
  assumes e: "exec st s = Inr s1" and h: "held a s1"
  shows "held a s \<or> step_dispatches st s a"
proof (cases st)
  case (PyInit cur self time callback)
  let ?s1 = "snd (make_shared cur s)"
  let ?s2 = "?s1\<lparr> py_injector := (py_injector ?s1)(self := Some (next_addr s)) \<rparr>"
  from e PyInit obtain s3 where s3: "SetCallback (next_addr s) (Some callback) ?s2 = Inr s3"
    and s1: "s1 = SetDuration (next_addr s) time s3"
    by (auto simp: InitPyInjector_eq Let_def split: sum.splits)
  from h show ?thesis unfolding s1 by (simp add: held_simple held_SetCallback [OF s3])
next
  case (PyStart self now)
  with e obtain b where "s1 = Start b (RecordStartTime b now s)"
    by (auto simp: InjectorStart_def split: option.splits)
  with h show ?thesis by (simp add: held_simple)
next
  case (PyStop self)
  with e obtain b where "s1 = Stop b s"
    by (auto simp: InjectorStop_def split: option.splits)
  with h show ?thesis by (simp add: held_simple)
next
  case (PyReset cur self now)
  with e obtain old where old: "py_injector s self = Some old"
    by (auto simp: InjectorReset_eq split: option.splits)
  let ?n = "next_addr s"
  let ?s1 = "snd (make_shared cur (Release old s))"
  let ?s3 = "?s1\<lparr> py_injector := (py_injector ?s1)(self := Some ?n) \<rparr>"
  from e old PyReset obtain s4 where s4: "SetCallback ?n (GetCallback s old) ?s3 = Inr s4"
    and s1: "s1 = Start ?n (RecordStartTime ?n now (SetDuration ?n (GetDuration s old) s4))"
    by (auto simp: InjectorReset_eq Let_def split: sum.splits)
  from h show ?thesis unfolding s1 by (simp add: held_simple held_SetCallback [OF s4])
next
  case (Watchdog env)
  with e h held_step [of a env s] show ?thesis by auto
next
  case (PendingCall r)
  have "held a (snd (run_pending_call r s)) \<Longrightarrow> held a s"
    by (cases "pending_calls s")
       (auto simp: held_def run_pending_call_fields dest: delivered_injector)
  with e h PendingCall show ?thesis by auto
next
  case (TraceEvent r cur)
  have "held a (snd (trace_event r cur s)) \<Longrightarrow> held a s"
  proof (cases "c_trace s cur")
    case (OnTraceCapsule b saved)
    assume "held a (snd (trace_event r cur s))"
    then consider "a \<in> set (pending_calls s)"
      | t where "0 < slot_count a (((c_trace s)(cur := saved)) t)"
      | "\<exists>e \<in> set (invocations s). ev_injector e = a"
      | "\<exists>e \<in> set (delivered b None s). ev_injector e = a"
      using OnTraceCapsule by (auto simp: held_def trace_event_fields)
    then show "held a s"
    proof cases
      case 1
      then show ?thesis by (simp add: held_def)
    next
      case 2
      then have "0 < slot_count a (c_trace s t)"
        using OnTraceCapsule by (cases "t = cur") simp_all
      then show ?thesis by (auto simp: held_def)
    next
      case 3
      then show ?thesis by (simp add: held_def)
    next
      case 4
      then have "a = b" by (auto dest: delivered_injector)
      then have "0 < slot_count a (c_trace s cur)" using OnTraceCapsule by simp
      then show ?thesis by (auto simp: held_def)
    qed
  qed (auto simp: held_def trace_event_fields)
  with e h TraceEvent show ?thesis by auto
next
  case Quit
  with e h show ?thesis by (auto simp: held_simple)
qed

lemma held_run:
  "run steps s = Inr s1 \<Longrightarrow> held a s1 \<Longrightarrow> held a s \<or> dispatched_in a steps s"
proof (induction steps arbitrary: s)
  case Nil
  then show ?case by simp
next
  case (Cons st steps)
  from Cons.prems(1) obtain s2 where e: "exec st s = Inr s2" and r: "run steps s2 = Inr s1"
    by (auto split: sum.splits)
  from Cons.IH [OF r Cons.prems(2)] have "held a s2 \<or> dispatched_in a steps s2" .
  then show ?case
  proof
    assume "held a s2"
    from held_exec [OF e this] show ?thesis by auto
  next
    assume "dispatched_in a steps s2"
    then show ?thesis using e by simp
  qed
qed

lemma run_append:
  "run (xs @ ys) s = (case run xs s of Inl e \<Rightarrow> Inl e | Inr s1 \<Rightarrow> run ys s1)"
  by (induction xs arbitrary: s) (auto split: sum.splits)

lemma dispatched_in_split:
  "dispatched_in a steps s \<Longrightarrow>
   \<exists>pre env post sp. steps = pre @ Watchdog env # post \<and> run pre s = Inr sp \<and>
     m_CheckTh sp = InLoop \<and> a \<in> set (scan_attached env (m_CallMap sp) sp)"
proof (induction steps arbitrary: s)
  case Nil
  then show ?case by simp
next
  case (Cons st steps)
  show ?case
  proof (cases "step_dispatches st s a")
    case True
    then obtain env where "st = Watchdog env" "m_CheckTh s = InLoop"
      "a \<in> set (scan_attached env (m_CallMap s) s)"
      by (cases st) auto
    then have "st # steps = [] @ Watchdog env # steps \<and> run [] s = Inr s \<and>
        m_CheckTh s = InLoop \<and> a \<in> set (scan_attached env (m_CallMap s) s)"
      by simp
    then show ?thesis by blast
  next
    case False
    with Cons.prems obtain s2 where e: "exec st s = Inr s2" and d: "dispatched_in a steps s2"
      by (auto split: sum.splits)
    from Cons.IH [OF d] obtain pre env post sp where
      p: "steps = pre @ Watchdog env # post" "run pre s2 = Inr sp" "m_CheckTh sp = InLoop"
         "a \<in> set (scan_attached env (m_CallMap sp) sp)"
      by blast
    have "st # steps = (st # pre) @ Watchdog env # post \<and> run (st # pre) s = Inr sp"
      using p e by simp
    with p(3,4) show ?thesis by blast
  qed
qed

lemma fires_mono_exec:
  assumes e: "exec st s = Inr s1"
  shows "fires a s \<le> fires a s1"
proof (cases st)
  case (PyInit cur self time callback)
  let ?s1 = "snd (make_shared cur s)"
  let ?s2 = "?s1\<lparr> py_injector := (py_injector ?s1)(self := Some (next_addr s)) \<rparr>"
  from e PyInit obtain s3 where s3: "SetCallback (next_addr s) (Some callback) ?s2 = Inr s3"
    and s1: "s1 = SetDuration (next_addr s) time s3"
    by (auto simp: InitPyInjector_eq Let_def split: sum.splits)
  have "invocations s1 = invocations s"
    unfolding s1 by (simp add: invocations_simple(2) invocations_simple(4) [OF s3] make_shared_fields)
  then show ?thesis by (simp add: fires_def)
next
  case (PyStart self now)
  with e obtain b where "s1 = Start b (RecordStartTime b now s)"
    by (auto simp: InjectorStart_def split: option.splits)
  then show ?thesis by (simp add: fires_def Start_fields invocations_simple)
next
  case (PyStop self)
  with e obtain b where "s1 = Stop b s"
    by (auto simp: InjectorStop_def split: option.splits)
  then show ?thesis by (simp add: fires_def Stop_fields)
next
  case (PyReset cur self now)
  with e obtain old where old: "py_injector s self = Some old"
    by (auto simp: InjectorReset_eq split: option.splits)
  let ?n = "next_addr s"
  let ?s1 = "snd (make_shared cur (Release old s))"
  let ?s3 = "?s1\<lparr> py_injector := (py_injector ?s1)(self := Some ?n) \<rparr>"
  from e old PyReset obtain s4 where s4: "SetCallback ?n (GetCallback s old) ?s3 = Inr s4"
    and s1: "s1 = Start ?n (RecordStartTime ?n now (SetDuration ?n (GetDuration s old) s4))"
    by (auto simp: InjectorReset_eq Let_def split: sum.splits)
  have "invocations s1 = invocations s"
    unfolding s1
    by (simp add: Start_fields invocations_simple(2,3) invocations_simple(4) [OF s4]
          make_shared_fields invocations_simple(1))
  then show ?thesis by (simp add: fires_def)
next
  case (Watchdog env)
  then show ?thesis using e by (auto simp: fires_def step_frame)
next
  case (PendingCall r)
  then show ?thesis using e by (auto simp: fires_def run_pending_call_fields)
next
  case (TraceEvent r cur)
  then show ?thesis using e by (auto simp: fires_def trace_event_fields)
next
  case Quit
  then show ?thesis using e by (auto simp: fires_def Shutdown_fields)
qed

lemma fires_mono_run: "run steps s = Inr s1 \<Longrightarrow> fires a s \<le> fires a s1"
proof (induction steps arbitrary: s)
  case Nil
  then show ?case by simp
next
  case (Cons st steps)
  from Cons.prems obtain s2 where e: "exec st s = Inr s2" and r: "run steps s2 = Inr s1"
    by (auto split: sum.splits)
  from fires_mono_exec [OF e, of a] Cons.IH [OF r] show ?case by simp
qed

lemma nothing_outstanding_never_fires:
  assumes c: "consistent s" and o: "outstanding a s = 0"
    and r: "run steps s = Inr s1" and n: "starts_in a steps s = 0"
  shows "fires a s1 = fires a s"
proof -
  from credit_run [OF c r, of a] o n have "fires a s1 \<le> fires a s"
    by (simp add: credit_def)
  with fires_mono_run [OF r, of a] show ?thesis by simp
qed

subsection \<open>The thread between a pass and the wait\<close>

lemma CheckThread_step_control:
  "m_CheckTh (snd (CheckThread_step env s)) = CheckThread_control s"
  "m_IsQuit (snd (CheckThread_step env s)) = m_IsQuit s"
  "m_CheckTh s \<noteq> InLoop \<Longrightarrow> m_Running (snd (CheckThread_step env s)) = m_Running s"
  by (simp_all add: CheckThread_step_state CheckThread_control_def CheckThread_body_state
      Let_def Merge_frame scan_loop_frame)








text \<open>The window between the inner loop and the wait. A \<open>Start\<close> that comes before
  the test of \<open>while (m_Running)\<close> keeps the thread in the loop. A \<open>Start\<close> that
  comes behind that test and before the thread is blocked in the wait puts its
  entry into the map, sets \<open>m_Running\<close> and notifies, but the thread is not
  waiting yet: it goes on into the wait, with the entry in the map.\<close>

lemma Start_before_loop_test:
  assumes "m_CheckTh s = AtWhileRunning"
  shows "m_CheckTh (Start a s) = AtWhileRunning"
    "m_CheckTh (snd (CheckThread_step env (Start a s))) = InLoop"
proof -
  show 1: "m_CheckTh (Start a s) = AtWhileRunning"
    using assms by (simp add: Start_def AddTimeoutCallback_def notify_def Let_def)
  have "m_Running (Start a s)"
    using assms by (simp add: Start_def AddTimeoutCallback_def notify_def Let_def)
  with 1 show "m_CheckTh (snd (CheckThread_step env (Start a s))) = InLoop"
    by (simp add: CheckThread_step_control CheckThread_control_def)
qed

lemma Start_behind_loop_test:
  assumes c: "m_CheckTh s = AtIfNotQuit \<or> m_CheckTh s = AtWait"
    and r: "\<not> m_Running s" and q: "\<not> m_IsQuit s"
  shows "m_CheckTh (Start a s) = m_CheckTh s"
    "a \<in> set (m_CallMap (Start a s))" "m_Running (Start a s)"
    "snd (CheckThread_step env2 (snd (CheckThread_step env1 (Start a s)))) =
       (Start a s)\<lparr> m_CheckTh := Waiting \<rparr>"
proof -
  show 1: "m_CheckTh (Start a s) = m_CheckTh s"
    using c by (auto simp: Start_def AddTimeoutCallback_def notify_def Let_def)
  show "a \<in> set (m_CallMap (Start a s))" "m_Running (Start a s)"
    using c r
    by (auto simp: Start_def AddTimeoutCallback_def notify_def CallMap_insert_def Let_def)
  have 2: "\<not> m_IsQuit (Start a s)"
    using c q by (auto simp: Start_def AddTimeoutCallback_def notify_def Let_def)
  show "snd (CheckThread_step env2 (snd (CheckThread_step env1 (Start a s)))) =
       (Start a s)\<lparr> m_CheckTh := Waiting \<rparr>"
    using c 1 2 by (auto simp: CheckThread_step_state CheckThread_control_def)
qed

text \<open>An instance: a handle is started and stopped, the pass of the thread finds
  the map empty, and the test of \<open>while (m_Running)\<close> fails. A second handle is
  started then. The thread goes into the wait, and its later steps do nothing:
  the valid entry of the second handle stays in the map, undispatched, long
  after its 80 ms.\<close>

lemma Start_behind_loop_test_example:
  "(case run [PyInit 0 0 50 7, PyStart 0 0, Watchdog (env_at 1000000 True), PyStop 0,
              Watchdog (env_at 1000000 True), Watchdog (env_at 1000000 True),
              PyInit 0 1 80 8, PyStart 1 2000000,
              Watchdog (env_at 3000000 True), Watchdog (env_at 3000000 True),
              Watchdog (env_at 500000000 True), Watchdog (env_at 500000000 True)] init_state of
      Inl e \<Rightarrow> False
    | Inr s \<Rightarrow>
        m_CheckTh s = Waiting \<and> m_CallMap s = [1] \<and> IsValid s 1 \<and> m_Running s \<and>
        pending_calls s = [] \<and> invocations s = [])"
  by (simp add: model_defs)

section \<open>The claims\<close>

subsection \<open>At most one delivery for each start\<close>

text \<open>
  C1 as stated fails in its ordering. An entry of 50 ms started at 0 is in the
  active map; in the scan at 100 ms it has expired. The scan calls \<open>Attach\<close> on
  the state that still holds the entry in \<open>m_CallMap\<close>; when \<open>Attach\<close> has returned
  the pending call is queued and the entry is still in the map. It is erased
  only afterwards.
\<close>

theorem C1_counterexample:
  "(case run [PyInit 0 0 50 7, PyStart 0 0] init_state of
      Inl e \<Rightarrow> False
    | Inr s \<Rightarrow>
        scan_attached (env_at 100000000 True) (m_CallMap s) s = [0] \<and>
        scan_loop (env_at 100000000 True) (m_CallMap s) LLONG_MAX s =
          (LLONG_MAX,
           (Attach True 0 s)\<lparr> m_CallMap := CallMap_erase 0 (m_CallMap (Attach True 0 s)) \<rparr>) \<and>
        pending_calls (Attach True 0 s) = [0] \<and>
        0 \<in> set (m_CallMap (Attach True 0 s)))"
  by (simp add: model_defs)

text \<open>
  C1, amended. In every state a run reaches from the initial state, the
  invocations made for an entry, together with what can still lead to one (its
  queued pending calls, its installed capsules, its place in the map and in
  \<open>m_NewVect\<close>), are at most the calls of \<open>Start\<close> on that entry: at most one
  invocation for each start, and \<open>Reset\<close> starts an entry of its own. In a scan,
  an entry is handed to \<open>Attach\<close> at most once, first dispatched and then erased
  in the same iteration, and it is not in the map when the scan returns, so a
  later scan dispatches it again only if it was started again.
\<close>

theorem C1_at_most_once:
  assumes r: "run steps init_state = Inr s"
  shows "fires a s + outstanding a s \<le> starts_in a steps init_state \<and>
         (\<forall>env. \<forall>b \<in> set (scan_attached env (m_CallMap s) s).
            count_list (scan_attached env (m_CallMap s) s) b = 1 \<and>
            b \<notin> set (m_CallMap (snd (scan_loop env (m_CallMap s) LLONG_MAX s))))"
proof -
  have w: "consistent s" by (rule consistent_run [OF consistent_init r])
  have "credit a s \<le> credit a init_state + starts_in a steps init_state"
    by (rule credit_run [OF consistent_init r])
  then have c: "fires a s + outstanding a s \<le> starts_in a steps init_state"
    unfolding credit_init by (simp add: credit_def)
  have "\<And>env. distinct (scan_attached env (m_CallMap s) s)"
    using scan_attached_subseq(2) [OF consistentD(1) [OF w]] .
  then have "\<forall>env. \<forall>b \<in> set (scan_attached env (m_CallMap s) s).
            count_list (scan_attached env (m_CallMap s) s) b = 1 \<and>
            b \<notin> set (m_CallMap (snd (scan_loop env (m_CallMap s) LLONG_MAX s)))"
    by (simp add: count_list_distinct scan_loop_CallMap)
  with c show ?thesis by blast
qed

theorem C1_at_most_once_witness:
  "(case run [PyInit 0 0 50 7, PyStart 0 0] init_state of
      Inl e \<Rightarrow> False
    | Inr s \<Rightarrow>
        starts_in 0 [PyInit 0 0 50 7, PyStart 0 0] init_state = 1 \<and>
        fires 0 s + outstanding 0 s \<le> 1 \<and>
        0 \<in> set (scan_attached (env_at 100000000 True) (m_CallMap s) s) \<and>
        count_list (scan_attached (env_at 100000000 True) (m_CallMap s) s) 0 = 1 \<and>
        0 \<notin> set (m_CallMap (snd (scan_loop (env_at 100000000 True) (m_CallMap s) LLONG_MAX s))))"
proof -
  obtain s where s: "run [PyInit 0 0 50 7, PyStart 0 0] init_state = Inr s"
    by (simp add: model_defs)
  have n: "starts_in 0 [PyInit 0 0 50 7, PyStart 0 0] init_state = 1"
    by (simp add: model_defs)
  have a: "0 \<in> set (scan_attached (env_at 100000000 True) (m_CallMap s) s)"
    using s by (auto simp add: model_defs)
  from C1_at_most_once [OF s, of 0] n a s show ?thesis by auto
qed

subsection \<open>A stopped entry\<close>

text \<open>
  C2 as stated fails. A handle is started and stopped; the thread enters its
  loop, its pass merges, the map is empty, \<open>m_Running\<close> is cleared and the thread
  goes through its tests into the wait. The handle is started again:
  \<open>m_Running\<close> is false, so \<open>AddTimeoutCallback\<close> puts the entry, whose flag is
  cleared, straight into the active map; the thread is woken, and the pass that
  follows leaves the entry there. After the flag was cleared by \<open>Stop\<close> and two
  merges have completed, the entry is in the active map.
\<close>

theorem C2_counterexample:
  "(case run [PyInit 0 0 50 7, PyStart 0 0, PyStop 0,
              Watchdog (env_at 1000000 True), Watchdog (env_at 1000000 True),
              Watchdog (env_at 1000000 True), Watchdog (env_at 1000000 True),
              Watchdog (env_at 1000000 True)] init_state of
      Inl e \<Rightarrow> False
    | Inr s \<Rightarrow> \<not> IsValid s 0 \<and> m_CallMap s = [] \<and> \<not> m_Running s \<and> m_CheckTh s = Waiting) \<and>
   (case run [PyInit 0 0 50 7, PyStart 0 0, PyStop 0,
              Watchdog (env_at 1000000 True), Watchdog (env_at 1000000 True),
              Watchdog (env_at 1000000 True), Watchdog (env_at 1000000 True),
              Watchdog (env_at 1000000 True),
              PyStart 0 2000000,
              Watchdog (env_at 3000000 True), Watchdog (env_at 3000000 True)] init_state of
      Inl e \<Rightarrow> False
    | Inr s \<Rightarrow> \<not> IsValid s 0 \<and> m_CallMap s = [0] \<and> m_NewVect s = [] \<and> m_DelVect s = [] \<and>
        m_CheckTh s = AtWhileRunning)"
  by (simp add: model_defs)

text \<open>
  C2, amended. Let \<open>Stop\<close> be called on an allocated entry. Its flag is cleared.
  If no step calls \<open>Start\<close> on that entry again, then after any steps and one pass
  of the watchdog body (scan and \<open>Merge\<close>) the entry is absent from the active
  map, and it stays absent through any further steps that do not start it.
  Whatever happens after the \<open>Stop\<close>, also a new \<open>Start\<close>, the flag stays cleared and
  no invocation is made for the entry any more.
\<close>

theorem C2_stopped_entry:
  assumes alloc: "a < next_addr s"
    and mid: "run mid (Stop a s) = Inr s2"
    and nomid: "starts_in a mid (Stop a s) = 0"
    and post: "run post (snd (CheckThread_body env s2)) = Inr s3"
    and nopost: "starts_in a post (snd (CheckThread_body env s2)) = 0"
    and any: "run steps (Stop a s) = Inr s4"
  shows "\<not> IsValid (Stop a s) a \<and>
         a \<notin> set (m_CallMap (snd (CheckThread_body env s2))) \<and>
         a \<notin> set (m_CallMap s3) \<and>
         \<not> IsValid s4 a \<and> fired a s4 = fired a s"
proof -
  have c0: "condemned a (Stop a s)" by (rule Stop_condemned [OF alloc])
  have c2: "condemned a s2" by (rule condemned_run [OF c0 mid nomid])
  have ab: "a \<notin> set (m_CallMap (snd (CheckThread_body env s2)))"
    by (rule condemned_body_absent [OF c2])
  have rb: "released a (snd (CheckThread_body env s2))"
    using c2 by (simp add: condemned_def released_def IsValid_def body_frame)
  have ab3: "a \<notin> set (m_CallMap s3)" by (rule absent_run [OF rb ab post nopost])
  have r0: "released a (Stop a s)" using c0 by (simp add: condemned_def)
  from released_run [OF r0 any] have "\<not> IsValid s4 a" "fired a s4 = fired a (Stop a s)"
    by (simp_all add: released_def)
  moreover have "fired a (Stop a s) = fired a s" by (simp add: fired_def Stop_fields)
  moreover have "\<not> IsValid (Stop a s) a" using r0 by (simp add: released_def)
  ultimately show ?thesis using ab ab3 by simp
qed

theorem C2_stopped_entry_witness:
  "(case run [PyInit 0 0 50 7, PyStart 0 0] init_state of
      Inl e \<Rightarrow> False
    | Inr s \<Rightarrow>
        0 < next_addr s \<and> 0 \<in> set (m_CallMap s) \<and>
        starts_in 0 [PyInit 0 1 80 8, PyStart 1 0] (Stop 0 s) = 0 \<and>
        (case run [PyInit 0 1 80 8, PyStart 1 0] (Stop 0 s) of
           Inl e \<Rightarrow> False
         | Inr s2 \<Rightarrow>
             0 \<in> set (m_CallMap s2) \<and>
             0 \<notin> set (m_CallMap (snd (CheckThread_body (env_at 1000000 True) s2)))) \<and>
        (case run [Watchdog (env_at 100000000 True), Watchdog (env_at 100000000 True),
                   PendingCall True] (Stop 0 s) of
           Inl e \<Rightarrow> False
         | Inr s4 \<Rightarrow> fired 0 s4 = []))"
proof -
  obtain s where s: "run [PyInit 0 0 50 7, PyStart 0 0] init_state = Inr s"
    by (simp add: model_defs)
  have al: "0 < next_addr s" and inmap: "0 \<in> set (m_CallMap s)" and f0: "fired 0 s = []"
    using s by (auto simp add: run_defs)
  obtain s2 where s2: "run [PyInit 0 1 80 8, PyStart 1 0] (Stop 0 s) = Inr s2"
    by (simp add: model_defs)
  have n2: "starts_in 0 [PyInit 0 1 80 8, PyStart 1 0] (Stop 0 s) = 0"
    using s by (auto simp add: model_defs)
  have in2: "0 \<in> set (m_CallMap s2)"
    using s s2 by (auto simp add: model_defs)
  let ?b = "snd (CheckThread_body (env_at 1000000 True) s2)"
  have s3: "run [] ?b = Inr ?b" and n3: "starts_in 0 [] ?b = 0"
    by simp_all
  obtain s4 where s4: "run [Watchdog (env_at 100000000 True), Watchdog (env_at 100000000 True),
      PendingCall True] (Stop 0 s) = Inr s4"
    by simp
  from C2_stopped_entry [OF al s2 n2 s3 n3 s4] f0
  have c: "0 \<notin> set (m_CallMap ?b)" "fired 0 s4 = []"
    by simp_all
  show ?thesis
    using s al inmap n2 s2 in2 s4 c
    by (simp del: run.simps exec.simps starts_in.simps)
qed

subsection \<open>The sleep after a scan\<close>

text \<open>
  C3 as stated fails. One entry of 1000 ms has just been started and every
  clock reading of the pass is its start time: the minimum remaining time is
  1000 ms and no scan time has elapsed, so the stated sleep is 1000 ms, while
  the thread calls \<open>AccurateSleep(1)\<close>. At 998 ms the remaining 2 ms are below the
  5 ms resolution: the stated sleep is the 5 ms floor, and the thread does not
  sleep at all.
\<close>

theorem C3_counterexample:
  "(case run [PyInit 0 0 1000 7, PyStart 0 0] init_state of
      Inl e \<Rightarrow> False
    | Inr s \<Rightarrow>
        m_CallMap s = [0] \<and>
        remaining (env_at 0 True) s 0 = ms_to_ns 1000 \<and>
        spec_sleep_duration (remaining (env_at 0 True) s 0) 0 = ms_to_ns 1000 \<and>
        ms_to_ns (fst (CheckThread_body (env_at 0 True) s)) = ms_to_ns 1 \<and>
        remaining (env_at 998000000 True) s 0 = ms_to_ns 2 \<and>
        spec_sleep_duration (remaining (env_at 998000000 True) s 0) 0 = ms_to_ns 5 \<and>
        ms_to_ns (fst (CheckThread_body (env_at 998000000 True) s)) = 0)"
  by (simp add: model_defs remaining_def spec_sleep_duration_def)

text \<open>
  C3, amended. After the scan and the merge the thread sleeps either 1 ms or
  not at all, never a negative time. It sleeps 1 ms exactly when the minimum of
  \<open>duration - span\<close> over the entries the scan visited and found unexpired
  (\<open>LLONG_MAX\<close> when there is none), minus the time between the clock readings
  before the scan and after the merge, exceeds the 5 ms resolution. While no
  shutdown is signalled the scan visits every entry of the active map, so the
  minimum is over all the unexpired entries of the map; once \<open>m_IsQuit\<close> is set
  the scan visits the expired entries at the front of the map and the first
  unexpired entry and stops there, and the entries behind it do not enter the
  minimum.
\<close>

theorem C3_sleep_is_one_ms_poll:
  "(fst (CheckThread_body env s) = 0 \<or> fst (CheckThread_body env s) = 1) \<and>
   fst (CheckThread_body env s) =
     (if fold min (map (remaining env s)
            (filter (\<lambda>a. \<not> expired env s a) (scan_visited env (m_CallMap s) s)))
            LLONG_MAX
           - (clock_end env - clock_start env) > ms_to_ns INTERVAL_RESOLUTION
      then 1 else 0) \<and>
   (\<not> m_IsQuit s \<longrightarrow>
      scan_visited env (m_CallMap s) s = m_CallMap s \<and>
      fst (CheckThread_body env s) =
        (if fold min (map (remaining env s) (filter (\<lambda>a. \<not> expired env s a) (m_CallMap s)))
               LLONG_MAX
              - (clock_end env - clock_start env) > ms_to_ns INTERVAL_RESOLUTION
         then 1 else 0)) \<and>
   (m_IsQuit s \<longrightarrow>
      scan_visited env (m_CallMap s) s =
        takeWhile (expired env s) (m_CallMap s) @
        take 1 (dropWhile (expired env s) (m_CallMap s)))"
proof (intro conjI impI)
  show "fst (CheckThread_body env s) = 0 \<or> fst (CheckThread_body env s) = 1"
    by (simp add: CheckThread_body_sleep)
next
  show "fst (CheckThread_body env s) =
     (if fold min (map (remaining env s)
            (filter (\<lambda>a. \<not> expired env s a) (scan_visited env (m_CallMap s) s)))
            LLONG_MAX
           - (clock_end env - clock_start env) > ms_to_ns INTERVAL_RESOLUTION
      then 1 else 0)"
    by (simp only: CheckThread_body_sleep scan_loop_minSpan_visited)
next
  assume q: "\<not> m_IsQuit s"
  show "scan_visited env (m_CallMap s) s = m_CallMap s"
    by (rule scan_visited_no_quit [OF q])
next
  assume q: "\<not> m_IsQuit s"
  have "fst (scan_loop env (m_CallMap s) LLONG_MAX s) =
      fold min (map (remaining env s) (filter (\<lambda>a. \<not> expired env s a) (m_CallMap s)))
        LLONG_MAX"
    using scan_loop_minSpan [OF q] by simp
  then show "fst (CheckThread_body env s) =
        (if fold min (map (remaining env s) (filter (\<lambda>a. \<not> expired env s a) (m_CallMap s)))
               LLONG_MAX
              - (clock_end env - clock_start env) > ms_to_ns INTERVAL_RESOLUTION
         then 1 else 0)"
    by (simp only: CheckThread_body_sleep)
next
  assume q: "m_IsQuit s"
  show "scan_visited env (m_CallMap s) s =
        takeWhile (expired env s) (m_CallMap s) @
        take 1 (dropWhile (expired env s) (m_CallMap s))"
    by (rule scan_visited_quit [OF q])
qed

text \<open>The amended statement at two inputs. Without shutdown: one entry of 1000 ms,
  just started; the minimum is 1000 ms and the thread sleeps 1 ms. With
  \<open>m_IsQuit\<close> set: entries of 1000 ms and of 7 ms in the map, both started at 0,
  and a pass at 5 ms; the scan stops at the first entry, the minimum is 995 ms
  and the thread sleeps 1 ms, although the second entry has 2 ms left.\<close>

theorem C3_sleep_is_one_ms_poll_witness:
  "(case run [PyInit 0 0 1000 7, PyStart 0 0] init_state of
      Inl e \<Rightarrow> False
    | Inr s \<Rightarrow>
        \<not> m_IsQuit s \<and> fst (CheckThread_body (env_at 0 True) s) = 1 \<and>
        scan_visited (env_at 0 True) (m_CallMap s) s = m_CallMap s \<and>
        fold min (map (remaining (env_at 0 True) s)
          (filter (\<lambda>a. \<not> expired (env_at 0 True) s a) (m_CallMap s))) LLONG_MAX
          = ms_to_ns 1000) \<and>
   (case run [PyInit 0 0 1000 7, PyStart 0 0, PyInit 0 1 7 8, PyStart 1 0,
              Watchdog (env_at 0 True), Watchdog (env_at 0 True), Quit] init_state of
      Inl e \<Rightarrow> False
    | Inr s \<Rightarrow>
        m_IsQuit s \<and> m_CallMap s = [0, 1] \<and>
        remaining (env_at 5000000 True) s 1 = ms_to_ns 2 \<and>
        scan_visited (env_at 5000000 True) (m_CallMap s) s = [0] \<and>
        fold min (map (remaining (env_at 5000000 True) s)
          (filter (\<lambda>a. \<not> expired (env_at 5000000 True) s a)
            (scan_visited (env_at 5000000 True) (m_CallMap s) s))) LLONG_MAX
          = ms_to_ns 995 \<and>
        fst (CheckThread_body (env_at 5000000 True) s) = 1)"
proof -
  obtain s where s: "run [PyInit 0 0 1000 7, PyStart 0 0] init_state = Inr s"
    by (simp add: model_defs)
  have q: "\<not> m_IsQuit s"
    using s by (auto simp add: model_defs)
  have M: "fold min (map (remaining (env_at 0 True) s)
          (filter (\<lambda>a. \<not> expired (env_at 0 True) s a) (m_CallMap s))) LLONG_MAX
          = ms_to_ns 1000"
    using s by (auto simp add: model_defs remaining_def expired_def)
  from C3_sleep_is_one_ms_poll [of "env_at 0 True" s] q
  have v: "scan_visited (env_at 0 True) (m_CallMap s) s = m_CallMap s"
    and f: "fst (CheckThread_body (env_at 0 True) s) =
        (if fold min (map (remaining (env_at 0 True) s)
               (filter (\<lambda>a. \<not> expired (env_at 0 True) s a) (m_CallMap s))) LLONG_MAX
              - (clock_end (env_at 0 True) - clock_start (env_at 0 True))
              > ms_to_ns INTERVAL_RESOLUTION
         then 1 else 0)"
    by blast+
  from f have one: "fst (CheckThread_body (env_at 0 True) s) = 1"
    unfolding M by (simp add: env_at_def ms_to_ns_def INTERVAL_RESOLUTION_def)
  obtain u where u: "run [PyInit 0 0 1000 7, PyStart 0 0, PyInit 0 1 7 8, PyStart 1 0,
              Watchdog (env_at 0 True), Watchdog (env_at 0 True), Quit] init_state = Inr u"
    by (simp add: model_defs)
  have uq: "m_IsQuit u" and um: "m_CallMap u = [0, 1]"
    and ur: "remaining (env_at 5000000 True) u 1 = ms_to_ns 2"
    and ue: "\<not> expired (env_at 5000000 True) u 0"
    and u0: "remaining (env_at 5000000 True) u 0 = ms_to_ns 995"
    using u by (auto simp add: model_defs remaining_def expired_def)
  from C3_sleep_is_one_ms_poll [of "env_at 5000000 True" u] uq
  have uv: "scan_visited (env_at 5000000 True) (m_CallMap u) u =
        takeWhile (expired (env_at 5000000 True) u) (m_CallMap u) @
        take 1 (dropWhile (expired (env_at 5000000 True) u) (m_CallMap u))"
    and uf: "fst (CheckThread_body (env_at 5000000 True) u) =
     (if fold min (map (remaining (env_at 5000000 True) u)
            (filter (\<lambda>a. \<not> expired (env_at 5000000 True) u a)
              (scan_visited (env_at 5000000 True) (m_CallMap u) u)))
            LLONG_MAX
           - (clock_end (env_at 5000000 True) - clock_start (env_at 5000000 True))
           > ms_to_ns INTERVAL_RESOLUTION
      then 1 else 0)"
    by blast+
  have uv1: "scan_visited (env_at 5000000 True) (m_CallMap u) u = [0]"
    using uv ue unfolding um by (simp del: scan_visited.simps)
  have uM: "fold min (map (remaining (env_at 5000000 True) u)
          (filter (\<lambda>a. \<not> expired (env_at 5000000 True) u a)
            (scan_visited (env_at 5000000 True) (m_CallMap u) u))) LLONG_MAX
          = ms_to_ns 995"
    unfolding uv1 using ue by (simp add: u0 ms_to_ns_def LLONG_MAX_def)
  from uf have uone: "fst (CheckThread_body (env_at 5000000 True) u) = 1"
    unfolding uM by (simp add: env_at_def ms_to_ns_def INTERVAL_RESOLUTION_def)
  show ?thesis
    using s q M v one u uq um ur uv1 uM uone
    by (simp del: run.simps exec.simps scan_visited.simps)
qed

subsection \<open>Reset\<close>




subsection \<open>The expiry threshold\<close>

text \<open>
  C5. Every invocation of a callback in a run from the initial state was
  preceded by a pass of the watchdog in which the entry was in the active map
  and the clock reading of its iteration minus its recorded start time strictly
  exceeded its duration: the callback does not fire unless the scan has seen
  more than the duration elapse. Within a scan, an entry is handed to \<open>Attach\<close>
  only under that strict comparison.
\<close>

theorem C5_fires_only_after_duration:
  assumes r: "run steps init_state = Inr s"
    and f: "e \<in> set (invocations s)"
  shows "(\<exists>pre env post sp.
            steps = pre @ Watchdog env # post \<and> run pre init_state = Inr sp \<and>
            m_CheckTh sp = InLoop \<and> ev_injector e \<in> set (m_CallMap sp) \<and>
            clock_entry env (ev_injector e) - GetStartTime sp (ev_injector e)
              > ms_to_ns (GetDuration sp (ev_injector e))) \<and>
         (\<forall>env. \<forall>a \<in> set (scan_attached env (m_CallMap s) s).
            a \<in> set (m_CallMap s) \<and>
            clock_entry env a - GetStartTime s a > ms_to_ns (GetDuration s a))"
proof -
  have "held (ev_injector e) s" using f by (auto simp: held_def)
  from held_run [OF r this] have "dispatched_in (ev_injector e) steps init_state"
    by (simp add: held_def init_state_def)
  from dispatched_in_split [OF this] obtain pre env post sp where
    p: "steps = pre @ Watchdog env # post" "run pre init_state = Inr sp" "m_CheckTh sp = InLoop"
       "ev_injector e \<in> set (scan_attached env (m_CallMap sp) sp)"
    by blast
  from scan_attached_expired [OF p(4)] p(1,2,3)
  have first: "\<exists>pre env post sp.
            steps = pre @ Watchdog env # post \<and> run pre init_state = Inr sp \<and>
            m_CheckTh sp = InLoop \<and> ev_injector e \<in> set (m_CallMap sp) \<and>
            clock_entry env (ev_injector e) - GetStartTime sp (ev_injector e)
              > ms_to_ns (GetDuration sp (ev_injector e))"
    unfolding expired_def by blast
  have second: "\<forall>env. \<forall>a \<in> set (scan_attached env (m_CallMap s) s).
            a \<in> set (m_CallMap s) \<and>
            clock_entry env a - GetStartTime s a > ms_to_ns (GetDuration s a)"
    using scan_attached_expired unfolding expired_def by blast
  from first second show ?thesis by blast
qed

theorem C5_fires_only_after_duration_witness:
  "(case run [PyInit 0 0 50 7, PyStart 0 0, Watchdog (env_at 100000000 True),
            Watchdog (env_at 100000000 True), PendingCall True]
           init_state of
      Inl e \<Rightarrow> False
    | Inr s \<Rightarrow>
        invocations s = [\<lparr> ev_injector = 0, ev_callable = Some 7, ev_argument = Some (PyFloat 0) \<rparr>] \<and>
        (\<exists>pre env post sp.
           [PyInit 0 0 50 7, PyStart 0 0, Watchdog (env_at 100000000 True),
            Watchdog (env_at 100000000 True), PendingCall True]
             = pre @ Watchdog env # post \<and>
           run pre init_state = Inr sp \<and> m_CheckTh sp = InLoop \<and> 0 \<in> set (m_CallMap sp) \<and>
           clock_entry env 0 - GetStartTime sp 0 > ms_to_ns (GetDuration sp 0)))"
proof -
  obtain s where
    s: "run [PyInit 0 0 50 7, PyStart 0 0, Watchdog (env_at 100000000 True),
            Watchdog (env_at 100000000 True), PendingCall True]
          init_state = Inr s"
    by (simp add: model_defs)
  have i: "invocations s =
      [\<lparr> ev_injector = 0, ev_callable = Some 7, ev_argument = Some (PyFloat 0) \<rparr>]"
    using s by (auto simp add: model_defs)
  then have m: "\<lparr> ev_injector = 0, ev_callable = Some 7, ev_argument = Some (PyFloat 0) \<rparr>
      \<in> set (invocations s)"
    by simp
  from C5_fires_only_after_duration [OF s m] have
    "\<exists>pre env post sp.
           [PyInit 0 0 50 7, PyStart 0 0, Watchdog (env_at 100000000 True),
            Watchdog (env_at 100000000 True), PendingCall True]
             = pre @ Watchdog env # post \<and>
           run pre init_state = Inr sp \<and> m_CheckTh sp = InLoop \<and> 0 \<in> set (m_CallMap sp) \<and>
           clock_entry env 0 - GetStartTime sp 0 > ms_to_ns (GetDuration sp 0)"
    by simp
  with s i show ?thesis
    by (simp del: run.simps exec.simps)
qed

subsection \<open>The checkpoint hook\<close>

text \<open>What the two delivery functions do in general: \<open>OnTrace\<close> restores the saved slot
  whatever else happens, both invoke the callback exactly when the entry is
  valid, and both return -1 exactly when the call fails. They differ in the
  argument the callback receives.\<close>

lemma OnTrace_effect:
  "c_trace (snd (OnTrace returns cur a saved s)) = (c_trace s)(cur := saved)"
  "invocations (snd (OnTrace returns cur a saved s)) = invocations s @ delivered a None s"
  "fst (OnTrace returns cur a saved s) =
     (if IsValid s a \<and> (GetCallback s a = None \<or> \<not> returns) then - 1 else 0)"
  by (simp_all add: OnTrace_def PyObject_CallFunction_def PyEval_SetTrace_def IsValid_def
      GetCallback_def TimePointToPyFloat_def delivered_def Let_def split: option.splits)

lemma OnFastTrace_effect:
  "invocations (snd (OnFastTrace returns a s)) =
     invocations s @ delivered a (Some (PyFloat (GetStartTime s a))) s"
  "fst (OnFastTrace returns a s) =
     (if IsValid s a \<and> (GetCallback s a = None \<or> \<not> returns) then - 1 else 0)"
  by (simp_all add: OnFastTrace_def PyObject_CallFunction_def IsValid_def GetCallback_def
      GetStartTime_def TimePointToPyFloat_def delivered_def Let_def split: option.splits)

text \<open>
  C6 at a failing input. An entry created on thread 1 (not the main thread)
  with callback 7 is started at 3 ms and expires; the watchdog thread enters its
  loop and the scan of its first pass installs \<open>OnTrace\<close> on thread 1. At the next trace event of thread 1 the hook restores the saved slot
  and calls the callback once, but the argument built from \<open>"(d)"\<close> and a
  \<open>PyObject*\<close> is undefined, not the recorded start time. The same entry created
  on the main thread is delivered through \<open>OnFastTrace\<close>, whose \<open>"O"\<close> passes the
  float of the recorded start time.
\<close>

theorem C6_OnTrace_argument_undefined:
  "(case run [PyInit 1 0 50 7, PyStart 0 3000000, Watchdog (env_at 100000000 True),
              Watchdog (env_at 100000000 True), TraceEvent True 1] init_state of
      Inl e \<Rightarrow> False
    | Inr s \<Rightarrow>
        c_trace s 1 = NoTrace \<and>
        invocations s = [\<lparr> ev_injector = 0, ev_callable = Some 7, ev_argument = None \<rparr>]) \<and>
   (case run [PyInit 0 0 50 7, PyStart 0 3000000, Watchdog (env_at 100000000 True),
              Watchdog (env_at 100000000 True), PendingCall True] init_state of
      Inl e \<Rightarrow> False
    | Inr s \<Rightarrow>
        invocations s =
          [\<lparr> ev_injector = 0, ev_callable = Some 7, ev_argument = Some (PyFloat 3000000) \<rparr>])"
  by (simp add: model_defs)

subsection \<open>The merge\<close>

text \<open>
  C7. \<open>Merge\<close> applies every pending removal to the active map first, then every
  pending addition whose entry is still valid (an invalidated one is skipped),
  and leaves both staging lists empty: it computes exactly the state the
  specification's three steps describe, where the addition of an entry to the
  active map is written out on the specification's side, and nothing but the map
  and the two staging lists changes. After the merge the keys of the map are
  the keys that were there and were not listed for removal, together with the
  valid pending additions; the removals come first, so a valid pending addition
  is in the map even when the same entry was listed for removal.
\<close>

theorem C7_Merge_removals_then_valid_adds:
  "Merge s = spec_Merge s
   \<and> set (m_CallMap (Merge s)) =
       (set (m_CallMap s) - set (m_DelVect s)) \<union> {a \<in> set (m_NewVect s). IsValid s a}
   \<and> m_CallMap (Merge s) =
       foldl (\<lambda>active a. if a \<in> set active then active else active @ [a])
         (filter (\<lambda>a. a \<notin> set (m_DelVect s)) (m_CallMap s))
         (filter (\<lambda>a. IsValid s a) (m_NewVect s))
   \<and> m_NewVect (Merge s) = [] \<and> m_DelVect (Merge s) = []"
proof -
  have m: "m_CallMap (Merge s) =
       foldl (\<lambda>active a. if a \<in> set active then active else active @ [a])
         (filter (\<lambda>a. a \<notin> set (m_DelVect s)) (m_CallMap s))
         (filter (\<lambda>a. IsValid s a) (m_NewVect s))"
    by (simp add: Merge_CallMap CallMap_insert_def)
  have e: "Merge s = spec_Merge s"
    by (simp add: Merge_def spec_Merge_def spec_apply_adds_def spec_apply_removals_def
        Merge_erase_loop_filter Merge_add_loop_foldl CallMap_insert_def Let_def)
  have k: "set (m_CallMap (Merge s)) =
       (set (m_CallMap s) - set (m_DelVect s)) \<union> {a \<in> set (m_NewVect s). IsValid s a}"
    by (rule set_Merge_CallMap)
  have v: "m_NewVect (Merge s) = []" "m_DelVect (Merge s) = []"
    by (rule Merge_vects)+
  from e k m v show ?thesis by blast
qed

subsection \<open>Parking\<close>



subsection \<open>A refused pending call\<close>

text \<open>
  C9. In a state reached by a run, let the scan hand a main-thread entry to
  \<open>Attach\<close> and let \<open>Py_AddPendingCall\<close> refuse the request. Then the dispatch leaves
  the state as it was: nothing is queued, installed or remembered for a retry.
  The scan erases the entry from the active map all the same, queues no pending
  call and installs no capsule for it and invokes nothing; unless the entry was
  started again (it is in \<open>m_NewVect\<close>), it is not in the active map after the
  pass. If the place in the map was all that was outstanding for the entry,
  then in every continuation that does not start it again no invocation is ever
  made for it: the dropped dispatch is not retried.
\<close>

theorem C9_rejected_request_dropped:
  assumes reach: "run pre init_state = Inr s"
    and main: "IsMainThreadInjector s a"
    and rej: "\<not> pending_accepts env a"
    and att: "a \<in> set (scan_attached env (m_CallMap s) s)"
  shows "Attach (pending_accepts env a) a s = s \<and>
         a \<notin> set (m_CallMap (snd (scan_loop env (m_CallMap s) LLONG_MAX s))) \<and>
         count_list (pending_calls (snd (scan_loop env (m_CallMap s) LLONG_MAX s))) a =
           count_list (pending_calls s) a \<and>
         (\<forall>t. slot_count a (c_trace (snd (scan_loop env (m_CallMap s) LLONG_MAX s)) t) =
              slot_count a (c_trace s t)) \<and>
         invocations (snd (scan_loop env (m_CallMap s) LLONG_MAX s)) = invocations s \<and>
         (a \<notin> set (m_NewVect s) \<longrightarrow> a \<notin> set (m_CallMap (snd (CheckThread_body env s)))) \<and>
         (outstanding a s = 1 \<longrightarrow>
            (\<forall>steps s1. run steps (snd (CheckThread_body env s)) = Inr s1 \<and>
                        starts_in a steps (snd (CheckThread_body env s)) = 0 \<longrightarrow>
                        fires a s1 = fires a s))"
proof -
  let ?s1 = "snd (scan_loop env (m_CallMap s) LLONG_MAX s)"
  let ?b = "snd (CheckThread_body env s)"
  have c: "consistent s" by (rule consistent_run [OF consistent_init reach])
  have inmap: "a \<in> set (m_CallMap s)" using att scan_attached_subseq(1) by auto
  have drop: "Attach (pending_accepts env a) a s = s"
    using main rej by (simp add: Attach_def FastCall_def Py_AddPendingCall_def)
  have gone: "a \<notin> set (m_CallMap ?s1)"
    using att by (simp add: scan_loop_CallMap)
  have pend: "count_list (pending_calls ?s1) a = count_list (pending_calls s) a"
    using rej by (simp add: scan_loop_pending count_list_0_iff)
  have tr: "\<forall>t. slot_count a (c_trace ?s1 t) = slot_count a (c_trace s t)"
    using main by (simp add: scan_loop_trace slot_count_push count_list_0_iff)
  have inv: "invocations ?s1 = invocations s"
    by (simp add: scan_loop_frame)
  have body: "a \<notin> set (m_NewVect s) \<longrightarrow> a \<notin> set (m_CallMap ?b)"
    using gone by (auto simp: CheckThread_body_state Let_def set_Merge_CallMap scan_loop_frame)
  have later: "outstanding a s = 1 \<longrightarrow>
            (\<forall>steps s1. run steps ?b = Inr s1 \<and> starts_in a steps ?b = 0 \<longrightarrow>
                        fires a s1 = fires a s)"
  proof (intro impI allI)
    fix steps s1
    assume o: "outstanding a s = 1"
      and r: "run steps ?b = Inr s1 \<and> starts_in a steps ?b = 0"
    from o inmap have z: "count_list (pending_calls s) a = 0"
      "slot_count a (c_trace s (thread_of s a)) = 0" "count_list (m_NewVect s) a = 0"
      by (simp_all add: outstanding_def)
    have thb: "thread_of ?b = thread_of s"
      by (rule thread_of_heap) (simp add: body_frame)
    have nn: "a \<notin> set (m_NewVect s)" using z(3) by (simp add: count_list_0_iff)
    have pb: "pending_calls ?b = pending_calls ?s1" "c_trace ?b = c_trace ?s1"
      "m_NewVect ?b = []"
      by (simp_all add: CheckThread_body_state Let_def Merge_frame Merge_vects)
    have ob: "outstanding a ?b = 0"
      using body nn pend tr z by (simp add: outstanding_def thb pb)
    have fb: "fires a ?b = fires a s" by (simp add: fires_def body_frame)
    from r have r1: "run steps ?b = Inr s1" and r2: "starts_in a steps ?b = 0"
      by simp_all
    from nothing_outstanding_never_fires [OF consistent_body [OF c] ob r1 r2] fb
    show "fires a s1 = fires a s" by simp
  qed
  from drop gone pend tr inv body later show ?thesis by blast
qed

theorem C9_rejected_request_dropped_witness:
  "(case run [PyInit 0 0 50 7, PyStart 0 0] init_state of
      Inl e \<Rightarrow> False
    | Inr s \<Rightarrow>
        IsMainThreadInjector s 0 \<and> \<not> pending_accepts (env_at 100000000 False) 0 \<and>
        0 \<in> set (scan_attached (env_at 100000000 False) (m_CallMap s) s) \<and>
        0 \<notin> set (m_NewVect s) \<and> IsValid s 0 \<and> outstanding 0 s = 1 \<and>
        Attach (pending_accepts (env_at 100000000 False) 0) 0 s = s \<and>
        0 \<notin> set (m_CallMap (snd (CheckThread_body (env_at 100000000 False) s))) \<and>
        (case run [Watchdog (env_at 200000000 True), Watchdog (env_at 200000000 True),
                   PendingCall True]
                (snd (CheckThread_body (env_at 100000000 False) s)) of
           Inl e \<Rightarrow> False
         | Inr s1 \<Rightarrow>
             starts_in 0 [Watchdog (env_at 200000000 True), Watchdog (env_at 200000000 True),
                          PendingCall True]
               (snd (CheckThread_body (env_at 100000000 False) s)) = 0 \<and>
             fires 0 s1 = 0))"
proof -
  obtain s where s: "run [PyInit 0 0 50 7, PyStart 0 0] init_state = Inr s"
    by (simp add: model_defs)
  have h: "IsMainThreadInjector s 0" "\<not> pending_accepts (env_at 100000000 False) 0"
    "0 \<in> set (scan_attached (env_at 100000000 False) (m_CallMap s) s)"
    "0 \<notin> set (m_NewVect s)" "IsValid s 0" "outstanding 0 s = 1" "fires 0 s = 0"
    using s by (auto simp add: run_defs)
  let ?b = "snd (CheckThread_body (env_at 100000000 False) s)"
  obtain s1 where s1: "run [Watchdog (env_at 200000000 True), Watchdog (env_at 200000000 True),
      PendingCall True] ?b = Inr s1"
    by simp
  have n: "starts_in 0 [Watchdog (env_at 200000000 True), Watchdog (env_at 200000000 True),
      PendingCall True] ?b = 0"
    by simp
  note C9 = C9_rejected_request_dropped [OF s h(1,2,3)]
  from C9 have c1: "Attach (pending_accepts (env_at 100000000 False) 0) 0 s = s"
    by blast
  from C9 h(4) have c2: "0 \<notin> set (m_CallMap ?b)"
    by blast
  from C9 h(6) have "\<forall>steps s1. run steps ?b = Inr s1 \<and> starts_in 0 steps ?b = 0 \<longrightarrow>
      fires 0 s1 = fires 0 s"
    by blast
  with s1 n h(7) have c3: "fires 0 s1 = 0"
    by (simp del: run.simps exec.simps starts_in.simps)
  note c = c1 c2 c3
  show ?thesis
    using s h s1 n c
    by (simp del: run.simps exec.simps starts_in.simps)
qed

subsection \<open>Reset on a stopped handle\<close>

text \<open>\<open>Start\<close> on a stopped handle registers the entry with its flag cleared, in the
  map or in \<open>m_NewVect\<close>; that no step sets the flag again and that no invocation
  is made for a released entry is \<open>released_run\<close>.\<close>

lemma Start_after_Stop_registers_dead_entry:
  "\<not> IsValid (Start a (RecordStartTime a now (Stop a s))) a \<and>
   (a \<in> set (m_CallMap (Start a (RecordStartTime a now (Stop a s)))) \<or>
    a \<in> set (m_NewVect (Start a (RecordStartTime a now (Stop a s)))))"
  by (simp add: IsValid_def Start_fields Stop_fields RecordStartTime_def CallMap_insert_def)

text \<open>
  C10 at a failing input. A handle is created, started and stopped; \<open>Stop\<close>
  releases the entry, which clears its flag and its callback. \<open>InjectorReset\<close>
  then reads the null callback and gives it to \<open>SetCallback\<close> of the new entry,
  which dereferences it: the call does not return and no timer is restarted.
  On a handle that was not stopped, \<open>InjectorReset\<close> does replace the entry with a
  fresh valid one that carries the callback.
\<close>

theorem C10_Reset_after_Stop_dereferences_null:
  "run [PyInit 0 0 50 7, PyStart 0 0, PyStop 0, PyReset 0 0 5000000] init_state
     = Inl NullDereference \<and>
   (case run [PyInit 0 0 50 7, PyStart 0 0, PyStop 0] init_state of
      Inl e \<Rightarrow> False
    | Inr s \<Rightarrow> py_injector s 0 = Some 0 \<and> \<not> IsValid s 0 \<and> GetCallback s 0 = None) \<and>
   (case run [PyInit 0 0 50 7, PyStart 0 0, PyReset 0 0 5000000] init_state of
      Inl e \<Rightarrow> False
    | Inr s \<Rightarrow> py_injector s 0 = Some 1 \<and> IsValid s 1 \<and> GetCallback s 1 = Some 7 \<and>
        GetStartTime s 1 = 5000000 \<and> \<not> IsValid s 0)"
  by (simp add: model_defs)

end
